theory Spec2Isabelle
  imports Main
begin

section \<open>The graph store\<close>

text \<open>
  The program keeps a disjoint-set forest in a graph database. An element node carries the
  properties \<open>id\<close>, \<open>type\<close>, \<open>name\<close> and \<open>weight\<close> (here \<open>nid\<close>, \<open>ntype\<close>, \<open>nname\<close>,
  \<open>weight\<close>: \<open>id\<close> and \<open>type\<close> are taken in HOL). A \<open>HAS_PARENT\<close> relationship is an entity
  of its own, with an identity \<open>rid\<close> given by the database, a start node and an end node,
  both named by the node's \<open>id\<close>.

  The store is the list of nodes and the list of relationships, in creation order, with the
  two sources of fresh names: \<open>uuid4()\<close> is a counter \<open>next_uuid\<close>, the database's
  relationship identities a counter \<open>next_rid\<close>.
\<close>

record node =
  nid :: nat
  ntype :: string
  nname :: string
  weight :: nat

record rel =
  rid :: nat
  start_node :: nat
  end_node :: nat

record store =
  nodes :: "node list"
  rels :: "rel list"
  next_uuid :: nat
  next_rid :: nat

datatype error = TypeError | IndexError | ValueError

text \<open>
  An operation returns its value or the exception it raised, and the store as it is at that
  moment: an exception leaves the database as the calls before it made it.
\<close>

type_synonym 'a result = "(error + 'a) \<times> store"

definition empty_store :: store where
  "empty_store = \<lparr>nodes = [], rels = [], next_uuid = 0, next_rid = 0\<rparr>"

subsection \<open>Primitives of the store\<close>

text \<open>\<open>self.select(type=type, name=name).first()\<close>: the first node with both properties.\<close>

definition select_first :: "store \<Rightarrow> string \<Rightarrow> string \<Rightarrow> node option" where
  "select_first s t n = List.find (\<lambda>x. ntype x = t \<and> nname x = n) (nodes s)"

text \<open>
  \<open>graph.match_one(start_node=node, rel_type="HAS_PARENT")\<close>: the first relationship
  leaving the node, \<open>None\<close> when there is none; with \<open>end_node\<close> given as well, the first
  one between the two nodes.
\<close>

definition match_one :: "store \<Rightarrow> node \<Rightarrow> rel option" where
  "match_one s a = List.find (\<lambda>e. start_node e = nid a) (rels s)"

definition match_one_to :: "store \<Rightarrow> node \<Rightarrow> node \<Rightarrow> rel option" where
  "match_one_to s a b =
     List.find (\<lambda>e. start_node e = nid a \<and> end_node e = nid b) (rels s)"

text \<open>\<open>graph.separate(relationship)\<close> deletes that relationship.\<close>

definition separate :: "store \<Rightarrow> rel \<Rightarrow> store" where
  "separate s e = s\<lparr>rels := remove1 e (rels s)\<rparr>"

text \<open>\<open>graph.create(HasParent(a, b))\<close> makes a new relationship from \<open>a\<close> to \<open>b\<close>.\<close>

definition create_rel :: "store \<Rightarrow> node \<Rightarrow> node \<Rightarrow> store" where
  "create_rel s a b =
     s\<lparr>rels := rels s @ [\<lparr>rid = next_rid s, start_node = nid a, end_node = nid b\<rparr>],
       next_rid := Suc (next_rid s)\<rparr>"

text \<open>\<open>graph.create(node)\<close> stores a new node.\<close>

definition create_node :: "store \<Rightarrow> node \<Rightarrow> store" where
  "create_node s a = s\<lparr>nodes := nodes s @ [a]\<rparr>"

text \<open>\<open>graph.push(node)\<close> writes the properties of the local node to the stored one.\<close>

definition push :: "store \<Rightarrow> node \<Rightarrow> store" where
  "push s a = s\<lparr>nodes := map (\<lambda>m. if nid m = nid a then a else m) (nodes s)\<rparr>"

subsection \<open>Variable-length patterns\<close>

text \<open>
  The pattern \<open>(a)-[:HAS_PARENT*]->(b)\<close> matches a path of one or more relationships from
  \<open>a\<close> to \<open>b\<close> that uses no relationship twice. Such a path exists exactly when some walk
  of one or more relationships does, and then one of at most \<open>length (rels s)\<close> hops does;
  \<open>reach_n\<close> searches the walks of at most \<open>k\<close> hops.
\<close>

fun reach_n :: "rel list \<Rightarrow> nat \<Rightarrow> nat \<Rightarrow> nat \<Rightarrow> bool" where
  "reach_n es 0 a b = False"
| "reach_n es (Suc k) a b =
     list_ex (\<lambda>e. if start_node e = a
                  then (if end_node e = b then True else reach_n es k (end_node e) b)
                  else False) es"

definition reaches :: "store \<Rightarrow> nat \<Rightarrow> nat \<Rightarrow> bool" where
  "reaches s a b = reach_n (rels s) (length (rels s)) a b"

definition is_root :: "store \<Rightarrow> node \<Rightarrow> bool" where
  "is_root s a = (match_one_to s a a \<noteq> None)"

text \<open>
  \<open>match ({id: x})-[:HAS_PARENT*]->(r)-[:HAS_PARENT]->(r) return r\<close>: the nodes \<open>r\<close> with a
  self-loop that \<open>x\<close> reaches. \<open>find\<close> runs the query only for a node \<open>x\<close> without a
  self-loop, so \<open>r\<close> is another node and a shortest path to it does not use the self-loop
  that the last part of the pattern needs. The database fixes no order of the rows; here
  they are listed in the order of the nodes, and the program takes the first one. In a
  well-formed store every row is the same node.
\<close>

definition root_rows :: "store \<Rightarrow> node \<Rightarrow> node list" where
  "root_rows s x = filter (\<lambda>r. reaches s (nid x) (nid r) \<and> is_root s r) (nodes s)"

text \<open>
  \<open>match (r {id: root}) match (a)-[:HAS_PARENT*]->(r) return a\<close>: every node that reaches
  the root. The root reaches itself through its self-loop, so it is one of them. The
  database returns a row for each path; here a node that several paths lead from is listed
  once: setting its parent a second time to the same root replaces its relationship to the
  root by another one to the root.
\<close>

definition ancestors :: "store \<Rightarrow> node \<Rightarrow> node list" where
  "ancestors s r = filter (\<lambda>a. reaches s (nid a) (nid r)) (nodes s)"

section \<open>The disjoint-set engine\<close>

text \<open>
  \<open>_set_parent\<close>: the relationship leaving the node is looked up, separated, and a new one
  to the parent created. \<open>separate\<close> raises \<open>TypeError\<close> when it is given \<open>None\<close>.
\<close>

definition set_parent :: "store \<Rightarrow> node \<Rightarrow> node \<Rightarrow> unit result" where
  "set_parent s a parent =
     (case match_one s a of
        None \<Rightarrow> (Inl TypeError, s)
      | Some parent_relation \<Rightarrow> (Inr (), create_rel (separate s parent_relation) a parent))"

text \<open>The loop \<open>for ancestor in ancestors: self._set_parent(ancestor, root)\<close>.\<close>

fun compress :: "store \<Rightarrow> node list \<Rightarrow> node \<Rightarrow> unit result" where
  "compress s [] root = (Inr (), s)"
| "compress s (ancestor # rest) root =
     (case set_parent s ancestor root of
        (Inl err, s') \<Rightarrow> (Inl err, s')
      | (Inr _, s') \<Rightarrow> compress s' rest root)"

definition find_uf :: "store \<Rightarrow> string \<Rightarrow> string \<Rightarrow> node result" where
  "find_uf s t n =
     (case select_first s t n of
        None \<Rightarrow>
          (let a = \<lparr>nid = next_uuid s, ntype = t, nname = n, weight = 1\<rparr>;
               s0 = s\<lparr>next_uuid := Suc (next_uuid s)\<rparr>
           in (Inr a, create_rel (create_node s0 a) a a))
      | Some existing \<Rightarrow>
          if is_root s existing then (Inr existing, s)
          else (case root_rows s existing of
                  [] \<Rightarrow> (Inl IndexError, s)
                | root # _ \<Rightarrow>
                    (case compress s (ancestors s root) root of
                       (Inl err, s') \<Rightarrow> (Inl err, s')
                     | (Inr _, s') \<Rightarrow> (Inr root, s'))))"

text \<open>\<open>[self.find(type=x[0], name=x[1]) for x in objects]\<close>\<close>

fun find_all :: "store \<Rightarrow> (string \<times> string) list \<Rightarrow> node list result" where
  "find_all s [] = (Inr [], s)"
| "find_all s (x # xs) =
     (case find_uf s (fst x) (snd x) of
        (Inl err, s') \<Rightarrow> (Inl err, s')
      | (Inr r, s') \<Rightarrow>
          (case find_all s' xs of
             (Inl err, s'') \<Rightarrow> (Inl err, s'')
           | (Inr rs, s'') \<Rightarrow> (Inr (r # rs), s'')))"

text \<open>
  \<open>max(roots, key=itemgetter('weight'))\<close>: Python's \<open>max\<close> keeps the first item and
  replaces it only by a strictly greater one; on an empty list it raises \<open>ValueError\<close>.
\<close>

fun max_from :: "node \<Rightarrow> node list \<Rightarrow> node" where
  "max_from best [] = best"
| "max_from best (x # xs) = max_from (if weight best < weight x then x else best) xs"

definition max_weight :: "node list \<Rightarrow> node option" where
  "max_weight roots = (case roots of [] \<Rightarrow> None | x # xs \<Rightarrow> Some (max_from x xs))"

text \<open>
  The loop of \<open>union\<close> over the roots. \<open>heaviest\<close> is the local node: its weight grows with
  each root merged into it and is pushed to the store each time.
\<close>

fun merge_roots :: "store \<Rightarrow> node \<Rightarrow> node list \<Rightarrow> unit result" where
  "merge_roots s heaviest [] = (Inr (), s)"
| "merge_roots s heaviest (r # rs) =
     (if nid r \<noteq> nid heaviest
      then (let heaviest' = heaviest\<lparr>weight := weight heaviest + weight r\<rparr>
            in case set_parent (push s heaviest') r heaviest' of
                 (Inl err, s') \<Rightarrow> (Inl err, s')
               | (Inr _, s') \<Rightarrow> merge_roots s' heaviest' rs)
      else merge_roots s heaviest rs)"

definition union_uf :: "store \<Rightarrow> (string \<times> string) list \<Rightarrow> unit result" where
  "union_uf s objects =
     (case find_all s objects of
        (Inl err, s') \<Rightarrow> (Inl err, s')
      | (Inr roots, s') \<Rightarrow>
          (case max_weight roots of
             None \<Rightarrow> (Inl ValueError, s')
           | Some heaviest \<Rightarrow> merge_roots s' heaviest roots))"

text \<open>
  A row of the stream is a dict from identifier type to value; a value is a string or
  \<open>None\<close>. \<open>filter(itemgetter(1), row.items())\<close> keeps the items whose value is truthy:
  neither \<open>None\<close> nor the empty string.
\<close>

fun matches :: "(string \<times> string option) list \<Rightarrow> (string \<times> string) list" where
  "matches [] = []"
| "matches ((t, None) # row) = matches row"
| "matches ((t, Some n) # row) = (if n = [] then matches row else (t, n) # matches row)"

fun union_from_stream :: "store \<Rightarrow> (string \<times> string option) list list \<Rightarrow> unit result" where
  "union_from_stream s [] = (Inr (), s)"
| "union_from_stream s (row # stream) =
     (case union_uf s (matches row) of
        (Inl err, s') \<Rightarrow> (Inl err, s')
      | (Inr _, s') \<Rightarrow> union_from_stream s' stream)"

definition global_id :: "store \<Rightarrow> string \<Rightarrow> string \<Rightarrow> nat result" where
  "global_id s t n =
     (case find_uf s t n of
        (Inl err, s') \<Rightarrow> (Inl err, s')
      | (Inr a, s') \<Rightarrow> (Inr (nid a), s'))"

section \<open>Notions of the specification\<close>

subsection \<open>Parent edges\<close>

text \<open>
  The parent edges of a store as a relation on node ids, the relationships that leave a
  node, and the ids of the nodes that exist.
\<close>

definition edges_of :: "rel list \<Rightarrow> (nat \<times> nat) set" where
  "edges_of es = (\<lambda>e. (start_node e, end_node e)) ` set es"

definition edges :: "store \<Rightarrow> (nat \<times> nat) set" where
  "edges s = edges_of (rels s)"

definition out :: "store \<Rightarrow> nat \<Rightarrow> rel list" where
  "out s a = filter (\<lambda>e. start_node e = a) (rels s)"

definition ids :: "store \<Rightarrow> nat set" where
  "ids s = nid ` set (nodes s)"

subsection \<open>Well-formed stores\<close>

text \<open>
  The invariants of the data model, all decidable on a given store: node ids are unique and
  were handed out by \<open>uuid4\<close> before; at most one node exists for a pair of type and name;
  a relationship joins two existing nodes; every node has exactly one outgoing parent
  relationship; and from every node the parent edges lead to a node with a self-loop, a
  root.
\<close>

definition graph_ok :: "store \<Rightarrow> bool" where
  "graph_ok s \<longleftrightarrow>
     (\<forall>e\<in>set (rels s). start_node e \<in> ids s \<and> end_node e \<in> ids s) \<and>
     (\<forall>a\<in>ids s. length (out s a) = 1)"

definition wf_store :: "store \<Rightarrow> bool" where
  "wf_store s \<longleftrightarrow>
     distinct (map nid (nodes s)) \<and>
     distinct (map (\<lambda>m. (ntype m, nname m)) (nodes s)) \<and>
     (\<forall>m\<in>set (nodes s). nid m < next_uuid s) \<and>
     graph_ok s \<and>
     (\<forall>m\<in>set (nodes s). \<exists>r\<in>set (nodes s). is_root s r \<and> reaches s (nid m) (nid r))"

text \<open>
  The stores the program can be in: it starts from the empty store, and each call of
  \<open>find\<close>, \<open>union\<close>, \<open>union_from_stream\<close> or \<open>global_id\<close> leaves a store behind,
  also when it raises.
\<close>

inductive reachable :: "store \<Rightarrow> bool" where
  init: "reachable empty_store"
| find: "reachable s \<Longrightarrow> reachable (snd (find_uf s t n))"
| union: "reachable s \<Longrightarrow> reachable (snd (union_uf s objects))"
| stream: "reachable s \<Longrightarrow> reachable (snd (union_from_stream s stream))"
| gid: "reachable s \<Longrightarrow> reachable (snd (global_id s t n))"

text \<open>
  The database gives a new relationship an id that no relationship in the store has:
  every id in use is below the next one.
\<close>

definition rids_fresh :: "store \<Rightarrow> bool" where
  "rids_fresh s \<longleftrightarrow> (\<forall>e\<in>set (rels s). rid e < next_rid s)"

subsection \<open>Representatives\<close>

text \<open>
  \<open>rep_rel E a r\<close>: following the edges \<open>E\<close> from \<open>a\<close> leads to \<open>r\<close>, and \<open>r\<close> has a
  self-loop. \<open>elem\<close> is the id of the node of a pair, \<open>rep_of\<close> the root of its class.
  \<open>redirect E S t\<close> is \<open>E\<close> after the parent of every node in \<open>S\<close> was set to \<open>t\<close>.
\<close>

definition rep_rel :: "(nat \<times> nat) set \<Rightarrow> nat \<Rightarrow> nat \<Rightarrow> bool" where
  "rep_rel E a r \<longleftrightarrow> (a, r) \<in> E\<^sup>* \<and> (r, r) \<in> E"

definition redirect :: "(nat \<times> nat) set \<Rightarrow> nat set \<Rightarrow> nat \<Rightarrow> (nat \<times> nat) set" where
  "redirect E S t = {(a, b). (a, b) \<in> E \<and> a \<notin> S} \<union> S \<times> {t}"

definition forest :: "store \<Rightarrow> bool" where
  "forest s \<longleftrightarrow> (\<forall>a\<in>ids s. \<exists>r. rep_rel (edges s) a r)"

definition skeleton :: "store \<Rightarrow> (nat \<times> string \<times> string) list" where
  "skeleton s = map (\<lambda>m. (nid m, ntype m, nname m)) (nodes s)"

definition elem :: "store \<Rightarrow> string \<times> string \<Rightarrow> nat option" where
  "elem s p = map_option nid (select_first s (fst p) (snd p))"

definition rep_of :: "store \<Rightarrow> string \<times> string \<Rightarrow> nat \<Rightarrow> bool" where
  "rep_of s p r \<longleftrightarrow> (\<exists>a. elem s p = Some a \<and> rep_rel (edges s) a r)"

text \<open>
  The store after \<open>_set_parent\<close> found the relationship \<open>e\<close> to replace, the node that
  \<open>find\<close> creates for an unseen pair, and the store with that node.
\<close>

definition reparent :: "store \<Rightarrow> rel \<Rightarrow> node \<Rightarrow> node \<Rightarrow> store" where
  "reparent s e a p = create_rel (separate s e) a p"

definition new_node :: "store \<Rightarrow> string \<Rightarrow> string \<Rightarrow> node" where
  "new_node s t n = \<lparr>nid = next_uuid s, ntype = t, nname = n, weight = 1\<rparr>"

definition with_new :: "store \<Rightarrow> string \<Rightarrow> string \<Rightarrow> store" where
  "with_new s t n =
     create_rel (create_node (s\<lparr>next_uuid := Suc (next_uuid s)\<rparr>) (new_node s t n))
       (new_node s t n) (new_node s t n)"

subsection \<open>Example stores\<close>

text \<open>
  \<open>store_ab\<close>: after \<open>union([a, b])\<close>, \<open>a\<close> is the root and \<open>b\<close> its child.
  \<open>store_abcd\<close>: a second class with root \<open>c\<close> and child \<open>d\<close>.
  \<open>store_chain\<close>: after \<open>union([c, a])\<close> on it the two roots tie, \<open>c\<close> comes first and
  wins, so \<open>b\<close> is two edges away from its root \<open>c\<close>.
\<close>

definition store_ab :: store where
  "store_ab = snd (union_uf empty_store [(''email'', ''a''), (''email'', ''b'')])"

definition store_abcd :: store where
  "store_abcd = snd (union_uf store_ab [(''email'', ''c''), (''email'', ''d'')])"

definition store_chain :: store where
  "store_chain = snd (union_uf store_abcd [(''email'', ''c''), (''email'', ''a'')])"

definition node_a :: node where
  "node_a = \<lparr>nid = 0, ntype = ''email'', nname = ''a'', weight = 2\<rparr>"

definition node_b :: node where
  "node_b = \<lparr>nid = 1, ntype = ''email'', nname = ''b'', weight = 1\<rparr>"

section \<open>Reaching a node is the transitive closure\<close>

text \<open>
  The bounded search \<open>reaches\<close> decides the transitive closure of the parent edges on
  every store: a path that repeats no edge has at most as many hops as there are
  relationships.
\<close>

lemma reach_n_Suc:
  "reach_n es (Suc k) a b \<longleftrightarrow>
     (\<exists>c. (a, c) \<in> edges_of es \<and> (c = b \<or> reach_n es k c b))"
  by (auto simp: edges_of_def list_ex_iff split: if_splits)

lemma reach_n_relpow:
  "reach_n es k a b \<longleftrightarrow> (\<exists>i. 0 < i \<and> i \<le> k \<and> (a, b) \<in> edges_of es ^^ i)"
proof (induction k arbitrary: a)
  case 0
  show ?case by simp
next
  case (Suc k)
  show ?case
  proof
    assume "reach_n es (Suc k) a b"
    then obtain c where ac: "(a, c) \<in> edges_of es" and c: "c = b \<or> reach_n es k c b"
      unfolding reach_n_Suc by blast
    from c show "\<exists>i. 0 < i \<and> i \<le> Suc k \<and> (a, b) \<in> edges_of es ^^ i"
    proof
      assume "c = b"
      with ac have "(a, b) \<in> edges_of es ^^ 1" by simp
      then show ?thesis by (intro exI[of _ 1]) simp
    next
      assume "reach_n es k c b"
      then obtain i where i: "0 < i" "i \<le> k" "(c, b) \<in> edges_of es ^^ i"
        using Suc.IH by blast
      from ac i(3) have "(a, b) \<in> edges_of es ^^ Suc i" by (rule relpow_Suc_I2)
      with i show ?thesis by (intro exI[of _ "Suc i"]) simp
    qed
  next
    assume "\<exists>i. 0 < i \<and> i \<le> Suc k \<and> (a, b) \<in> edges_of es ^^ i"
    then obtain i where i: "0 < i" "i \<le> Suc k" "(a, b) \<in> edges_of es ^^ i" by blast
    then obtain j where j: "i = Suc j" by (cases i) auto
    with i(3) obtain c where ac: "(a, c) \<in> edges_of es" and cb: "(c, b) \<in> edges_of es ^^ j"
      by (blast dest: relpow_Suc_D2)
    show "reach_n es (Suc k) a b"
    proof (cases j)
      case 0
      with cb have "c = b" by simp
      with ac show ?thesis unfolding reach_n_Suc by blast
    next
      case (Suc j')
      have "0 < j \<and> j \<le> k \<and> (c, b) \<in> edges_of es ^^ j"
        using cb i(2) j Suc by simp
      then have "reach_n es k c b" unfolding Suc.IH[of c] by blast
      with ac show ?thesis unfolding reach_n_Suc by blast
    qed
  qed
qed

lemma reaches_trancl: "reaches s a b \<longleftrightarrow> (a, b) \<in> (edges s)\<^sup>+"
proof
  assume "reaches s a b"
  then show "(a, b) \<in> (edges s)\<^sup>+"
    by (auto simp: reaches_def reach_n_relpow edges_def trancl_power)
next
  assume ab: "(a, b) \<in> (edges s)\<^sup>+"
  have fin: "finite (edges s)" by (simp add: edges_def edges_of_def)
  have ne: "edges s \<noteq> {}" using ab by auto
  have card: "card (edges s) \<le> length (rels s)"
    unfolding edges_def edges_of_def by (meson card_image_le card_length le_trans List.finite_set)
  from ne fin have "0 < card (edges s)" by (simp add: card_gt_0_iff)
  then have "Suc (card (edges s) - 1) = card (edges s)" by simp
  with ab fin obtain i where "0 < i" "i \<le> card (edges s)" "(a, b) \<in> edges s ^^ i"
    by (auto simp: finite_trancl_ntranl ntrancl_def)
  with card show "reaches s a b"
    by (auto simp: reaches_def reach_n_relpow edges_def intro!: exI[of _ i])
qed

section \<open>Forests as relations\<close>

lemma redirect_empty: "redirect E {} t = E"
  by (auto simp: redirect_def)

lemma redirect_redirect: "redirect (redirect E S t) T t = redirect E (S \<union> T) t"
  by (auto simp: redirect_def)

lemma single_valued_redirect: "single_valued E \<Longrightarrow> single_valued (redirect E S t)"
  by (auto simp: redirect_def single_valued_def)

lemma root_stuck:
  assumes sv: "single_valued E" and r: "(r, r) \<in> E" and path: "(r, x) \<in> E\<^sup>*"
  shows "x = r"
  using path
proof (induction rule: rtrancl_induct)
  case base
  show ?case ..
next
  case (step y z)
  with r sv show ?case by (auto dest: single_valuedD)
qed

lemma rep_rel_unique:
  assumes sv: "single_valued E" and 1: "rep_rel E a r" and 2: "rep_rel E a r'"
  shows "r = r'"
proof -
  from 1 2 have "(a, r) \<in> E\<^sup>*" "(a, r') \<in> E\<^sup>*" by (auto simp: rep_rel_def)
  with sv have "(r, r') \<in> E\<^sup>* \<or> (r', r) \<in> E\<^sup>*" by (rule single_valued_confluent)
  then show ?thesis
    using 1 2 root_stuck[OF sv] by (auto simp: rep_rel_def)
qed

lemma rep_rel_trancl: "rep_rel E a r \<longleftrightarrow> (a, r) \<in> E\<^sup>+ \<and> (r, r) \<in> E"
  by (auto simp: rep_rel_def intro: rtrancl_into_trancl1)

lemma rep_rel_mono: "E \<subseteq> E' \<Longrightarrow> rep_rel E a r \<Longrightarrow> rep_rel E' a r"
  unfolding rep_rel_def using rtrancl_mono[of E E'] by blast

text \<open>Path compression keeps every representative.\<close>

lemma rep_rel_compress:
  assumes sv: "single_valued E" and t: "(t, t) \<in> E"
    and S: "S = {a. (a, t) \<in> E\<^sup>+}"
    and rep: "rep_rel E a r"
  shows "rep_rel (redirect E S t) a r"
proof (cases "r = t")
  case True
  from t S have tS: "t \<in> S" by auto
  from rep True t have "(a, t) \<in> E\<^sup>+" by (simp add: rep_rel_trancl)
  with S have "a \<in> S" by simp
  with tS have "(a, t) \<in> redirect E S t" "(t, t) \<in> redirect E S t"
    by (auto simp: redirect_def)
  with True show ?thesis by (auto simp: rep_rel_def)
next
  case False
  from rep have r: "(r, r) \<in> E" and path: "(a, r) \<in> E\<^sup>*" by (auto simp: rep_rel_def)
  have notS: "x \<notin> S" if "(x, r) \<in> E\<^sup>*" for x
  proof
    assume "x \<in> S"
    with S have "(x, t) \<in> E\<^sup>*" by auto
    with sv that have "(r, t) \<in> E\<^sup>* \<or> (t, r) \<in> E\<^sup>*" by (blast dest: single_valued_confluent)
    with root_stuck[OF sv r] root_stuck[OF sv t] False show False by auto
  qed
  from path have "(a, r) \<in> (redirect E S t)\<^sup>*"
  proof (induction rule: converse_rtrancl_induct)
    case base
    show ?case ..
  next
    case (step y z)
    from step.hyps have "(y, r) \<in> E\<^sup>*" by auto
    then have "y \<notin> S" by (rule notS)
    with step.hyps(1) have "(y, z) \<in> redirect E S t" by (simp add: redirect_def)
    with step.IH show ?case by auto
  qed
  moreover from notS[of r] r have "(r, r) \<in> redirect E S t" by (simp add: redirect_def)
  ultimately show ?thesis by (simp add: rep_rel_def)
qed


text \<open>Merging the roots \<open>S\<close> into the root \<open>h\<close>.\<close>

lemma rep_rel_merge:
  assumes sv: "single_valued E" and S: "\<forall>x\<in>S. (x, x) \<in> E" and h: "(h, h) \<in> E"
    and hS: "h \<notin> S" and rep: "rep_rel E a r"
  shows "rep_rel (redirect E S h) a (if r \<in> S then h else r)"
proof -
  let ?E' = "redirect E S h"
  from rep have r: "(r, r) \<in> E" and path: "(a, r) \<in> E\<^sup>*" by (auto simp: rep_rel_def)
  have inner: "y \<notin> S" if "(y, r) \<in> E\<^sup>*" "y \<noteq> r" for y
  proof
    assume "y \<in> S"
    with S have "(y, y) \<in> E" by blast
    from root_stuck[OF sv this that(1)] that(2) show False by simp
  qed
  from path have "(a, r) \<in> ?E'\<^sup>*"
  proof (induction rule: converse_rtrancl_induct)
    case base
    show ?case ..
  next
    case (step y z)
    show ?case
    proof (cases "y = r")
      case True
      then show ?thesis by simp
    next
      case False
      from step.hyps have "(y, r) \<in> E\<^sup>*" by auto
      then have "y \<notin> S" using False by (rule inner)
      with step.hyps(1) have "(y, z) \<in> ?E'" by (simp add: redirect_def)
      with step.IH show ?thesis by auto
    qed
  qed
  moreover from h hS have "(h, h) \<in> ?E'" by (simp add: redirect_def)
  moreover have "(r, h) \<in> ?E'" if "r \<in> S" using that by (simp add: redirect_def)
  moreover have "(r, r) \<in> ?E'" if "r \<notin> S" using that r by (simp add: redirect_def)
  ultimately show ?thesis by (auto simp: rep_rel_def intro: rtrancl_into_rtrancl)
qed

text \<open>In a forest the only cycles are the self-loops of the roots.\<close>

lemma cycle_is_root:
  assumes sv: "single_valued E" and rep: "rep_rel E a r" and cyc: "(a, a) \<in> E\<^sup>+"
  shows "a = r"
proof -
  have returns: "(x, a) \<in> E\<^sup>*" if "(a, x) \<in> E\<^sup>*" for x
    using that
  proof (induction rule: rtrancl_induct)
    case base
    show ?case ..
  next
    case (step y z)
    have "(y, a) \<in> E\<^sup>+"
    proof (cases "y = a")
      case True
      with cyc show ?thesis by simp
    next
      case False
      with step.IH show ?thesis by (auto dest: rtranclD)
    qed
    then obtain z' where "(y, z') \<in> E" "(z', a) \<in> E\<^sup>*" by (blast dest: tranclD)
    with sv step.hyps(2) show ?case by (auto dest: single_valuedD)
  qed
  from rep have "(a, r) \<in> E\<^sup>*" "(r, r) \<in> E" by (auto simp: rep_rel_def)
  with returns have "(r, a) \<in> E\<^sup>*" by blast
  from root_stuck[OF sv \<open>(r, r) \<in> E\<close> this] show ?thesis .
qed

section \<open>The store primitives\<close>

lemma find_filter_conv:
  "List.find P xs = (case filter P xs of [] \<Rightarrow> None | x # _ \<Rightarrow> Some x)"
  by (induction xs) auto

lemma find_append_conv:
  "List.find P (xs @ ys) = (case List.find P xs of None \<Rightarrow> List.find P ys | Some x \<Rightarrow> Some x)"
  by (induction xs) auto

lemma edges_out: "(a, b) \<in> edges s \<longleftrightarrow> (\<exists>e\<in>set (out s a). end_node e = b)"
  by (auto simp: edges_def edges_of_def out_def)

lemma out_start: "e \<in> set (out s a) \<Longrightarrow> start_node e = a"
  by (simp add: out_def)

lemma match_one_out:
  "match_one s a = (case out s (nid a) of [] \<Rightarrow> None | e # _ \<Rightarrow> Some e)"
  by (simp add: match_one_def out_def find_filter_conv)

lemma is_root_edges: "is_root s r \<longleftrightarrow> (nid r, nid r) \<in> edges s"
  by (force simp: is_root_def match_one_to_def find_None_iff edges_def edges_of_def)

lemma single_valued_edges:
  assumes "graph_ok s"
  shows "single_valued (edges s)"
proof (rule single_valuedI)
  fix a b c
  assume ab: "(a, b) \<in> edges s" and ac: "(a, c) \<in> edges s"
  then obtain e1 e2 where e: "e1 \<in> set (out s a)" "end_node e1 = b"
    "e2 \<in> set (out s a)" "end_node e2 = c"
    by (auto simp: edges_out)
  then have "a \<in> ids s" using assms by (auto simp: graph_ok_def out_def)
  with assms have "length (out s a) = 1" by (simp add: graph_ok_def)
  then obtain e0 where "out s a = [e0]" by (cases "out s a") auto
  with e show "b = c" by simp
qed

lemma edges_ids: "graph_ok s \<Longrightarrow> (a, b) \<in> edges s \<Longrightarrow> a \<in> ids s \<and> b \<in> ids s"
  by (auto simp: graph_ok_def edges_def edges_of_def)

lemma trancl_edges_ids:
  assumes "graph_ok s" and "(a, b) \<in> (edges s)\<^sup>+"
  shows "a \<in> ids s \<and> b \<in> ids s"
proof -
  from assms(2) have "a \<in> Domain (edges s)" "b \<in> Range (edges s)"
    by (auto dest: tranclD tranclD2)
  with assms(1) show ?thesis by (auto dest: edges_ids)
qed

lemma out_single:
  assumes "graph_ok s" and "(a, b) \<in> edges s"
  shows "\<exists>e. out s a = [e] \<and> end_node e = b"
proof -
  from assms have "a \<in> ids s" by (auto dest: edges_ids)
  with assms(1) have "length (out s a) = 1" by (simp add: graph_ok_def)
  then obtain e where e: "out s a = [e]" by (cases "out s a") auto
  with assms(2) show ?thesis by (auto simp: edges_out)
qed

lemma out_outside: "graph_ok s \<Longrightarrow> a \<notin> ids s \<Longrightarrow> out s a = []"
  by (auto simp: graph_ok_def out_def filter_empty_conv)

subsection \<open>Setting a parent\<close>

lemma reparent_fields:
  "nodes (reparent s e a p) = nodes s"
  "next_uuid (reparent s e a p) = next_uuid s"
  "rels (reparent s e a p) =
     remove1 e (rels s) @ [\<lparr>rid = next_rid s, start_node = nid a, end_node = nid p\<rparr>]"
  by (simp_all add: reparent_def create_rel_def separate_def)

lemma next_rid_reparent: "next_rid (reparent s e a p) = Suc (next_rid s)"
  by (simp add: reparent_def create_rel_def separate_def)

lemma out_reparent:
  assumes "out s (nid a) = [e]"
  shows "out (reparent s e a p) b =
     (if b = nid a then [\<lparr>rid = next_rid s, start_node = nid a, end_node = nid p\<rparr>]
      else out s b)"
proof (cases "b = nid a")
  case True
  have "filter (\<lambda>x. start_node x = nid a) (remove1 e (rels s)) = remove1 e (out s (nid a))"
    by (simp add: out_def filter_remove1)
  with assms True show ?thesis by (simp add: out_def reparent_fields)
next
  case False
  from assms have "start_node e = nid a" by (auto intro: out_start[of e s])
  with False have "e \<notin> set (out s b)" by (auto simp: out_def)
  then have "remove1 e (out s b) = out s b" by (rule remove1_idem)
  moreover have "filter (\<lambda>x. start_node x = b) (remove1 e (rels s)) = remove1 e (out s b)"
    by (simp add: out_def filter_remove1)
  ultimately show ?thesis using False by (simp add: out_def reparent_fields)
qed

lemma rels_reparent_origin:
  assumes e: "out s (nid a) = [e]" and y: "y \<in> set (rels (reparent s e a p))"
  shows "(y \<in> set (rels s) \<and> start_node y \<noteq> nid a) \<or> rid y = next_rid s"
proof (cases "y \<in> set (remove1 e (rels s))")
  case True
  then have old: "y \<in> set (rels s)" using set_remove1_subset[of e "rels s"] by blast
  have "start_node y \<noteq> nid a"
  proof
    assume "start_node y = nid a"
    with True have "y \<in> set (filter (\<lambda>x. start_node x = nid a) (remove1 e (rels s)))" by simp
    then have "y \<in> set (remove1 e (out s (nid a)))" by (simp add: out_def filter_remove1)
    with e show False by simp
  qed
  with old show ?thesis by simp
next
  case False
  with y show ?thesis by (simp add: reparent_fields)
qed

lemma edges_reparent:
  assumes "out s (nid a) = [e]"
  shows "edges (reparent s e a p) = redirect (edges s) {nid a} (nid p)"
  by (auto simp: edges_out out_reparent[OF assms] redirect_def split: if_splits)

lemma ids_reparent: "ids (reparent s e a p) = ids s"
  by (simp add: ids_def reparent_fields)

lemma graph_ok_reparent:
  assumes ok: "graph_ok s" and e: "out s (nid a) = [e]" and p: "nid p \<in> ids s"
  shows "graph_ok (reparent s e a p)"
proof -
  from e have "e \<in> set (out s (nid a))" by simp
  then have "e \<in> set (rels s)" "start_node e = nid a" by (auto simp: out_def)
  with ok have a: "nid a \<in> ids s" by (auto simp: graph_ok_def)
  have "set (remove1 e (rels s)) \<subseteq> set (rels s)" by (rule set_remove1_subset)
  with ok a p have "\<forall>x\<in>set (rels (reparent s e a p)). start_node x \<in> ids s \<and> end_node x \<in> ids s"
    by (auto simp: reparent_fields graph_ok_def)
  moreover from ok have "\<forall>b\<in>ids s. length (out (reparent s e a p) b) = 1"
    by (simp add: out_reparent[OF e] graph_ok_def)
  ultimately show ?thesis by (simp add: graph_ok_def ids_reparent)
qed

lemma set_parent_reparent:
  assumes "graph_ok s" and "nid a \<in> ids s"
  shows "\<exists>e. out s (nid a) = [e] \<and> set_parent s a p = (Inr (), reparent s e a p)"
proof -
  from assms have "length (out s (nid a)) = 1" by (simp add: graph_ok_def)
  then obtain e where "out s (nid a) = [e]" by (cases "out s (nid a)") auto
  then show ?thesis by (simp add: set_parent_def match_one_out reparent_def)
qed

subsection \<open>The loops\<close>

lemma compress_ok:
  assumes "graph_ok s" and "nid ` set as \<subseteq> ids s" and "nid root \<in> ids s"
  shows "\<exists>s'. compress s as root = (Inr (), s') \<and> nodes s' = nodes s \<and>
           next_uuid s' = next_uuid s \<and> graph_ok s' \<and>
           edges s' = redirect (edges s) (nid ` set as) (nid root) \<and>
           (\<forall>b. b \<notin> nid ` set as \<longrightarrow> out s' b = out s b)"
  using assms
proof (induction as arbitrary: s)
  case Nil
  then show ?case by (simp add: redirect_empty)
next
  case (Cons a as)
  from Cons.prems have a: "nid a \<in> ids s" by simp
  from set_parent_reparent[OF Cons.prems(1) a, of root]
  obtain e where e: "out s (nid a) = [e]"
    and sp: "set_parent s a root = (Inr (), reparent s e a root)" by blast
  let ?s1 = "reparent s e a root"
  have ok1: "graph_ok ?s1" using Cons.prems(1) e Cons.prems(3) by (rule graph_ok_reparent)
  have ids1: "ids ?s1 = ids s" by (rule ids_reparent)
  from Cons.prems ids1 have "nid ` set as \<subseteq> ids ?s1" "nid root \<in> ids ?s1" by auto
  from Cons.IH[OF ok1 this] obtain s' where s':
    "compress ?s1 as root = (Inr (), s')" "nodes s' = nodes ?s1"
    "next_uuid s' = next_uuid ?s1" "graph_ok s'"
    "edges s' = redirect (edges ?s1) (nid ` set as) (nid root)"
    "\<forall>b. b \<notin> nid ` set as \<longrightarrow> out s' b = out ?s1 b" by blast
  have "edges s' = redirect (edges s) (nid ` set (a # as)) (nid root)"
    using s'(5) by (simp add: edges_reparent[OF e] redirect_redirect)
  moreover have "\<forall>b. b \<notin> nid ` set (a # as) \<longrightarrow> out s' b = out s b"
    using s'(6) by (simp add: out_reparent[OF e])
  ultimately show ?case using sp s' by (simp add: reparent_fields)
qed

lemma compress_rids:
  assumes "graph_ok s" and "nid ` set as \<subseteq> ids s" and "nid root \<in> ids s"
  shows "\<exists>s'. compress s as root = (Inr (), s') \<and> next_rid s \<le> next_rid s' \<and>
           (\<forall>y\<in>set (rels s').
              (y \<in> set (rels s) \<and> start_node y \<notin> nid ` set as) \<or> next_rid s \<le> rid y)"
  using assms
proof (induction as arbitrary: s)
  case Nil
  then show ?case by simp
next
  case (Cons a as)
  from Cons.prems have a: "nid a \<in> ids s" by simp
  from set_parent_reparent[OF Cons.prems(1) a, of root]
  obtain e where e: "out s (nid a) = [e]"
    and sp: "set_parent s a root = (Inr (), reparent s e a root)" by blast
  let ?s1 = "reparent s e a root"
  have ok1: "graph_ok ?s1" using Cons.prems(1) e Cons.prems(3) by (rule graph_ok_reparent)
  have ids1: "ids ?s1 = ids s" by (rule ids_reparent)
  from Cons.prems ids1 have "nid ` set as \<subseteq> ids ?s1" "nid root \<in> ids ?s1" by auto
  from Cons.IH[OF ok1 this] obtain s' where s':
    "compress ?s1 as root = (Inr (), s')" "next_rid ?s1 \<le> next_rid s'"
    "\<forall>y\<in>set (rels s').
       (y \<in> set (rels ?s1) \<and> start_node y \<notin> nid ` set as) \<or> next_rid ?s1 \<le> rid y"
    by blast
  have 1: "compress s (a # as) root = (Inr (), s')" using sp s'(1) by simp
  have 2: "next_rid s \<le> next_rid s'" using s'(2) by (simp add: next_rid_reparent)
  have 3: "(y \<in> set (rels s) \<and> start_node y \<notin> nid ` set (a # as)) \<or> next_rid s \<le> rid y"
    if y: "y \<in> set (rels s')" for y
  proof -
    from s'(3) y have "(y \<in> set (rels ?s1) \<and> start_node y \<notin> nid ` set as) \<or>
        next_rid ?s1 \<le> rid y" by blast
    then show ?thesis
    proof
      assume y1: "y \<in> set (rels ?s1) \<and> start_node y \<notin> nid ` set as"
      with rels_reparent_origin[OF e, of y root]
      have "(y \<in> set (rels s) \<and> start_node y \<noteq> nid a) \<or> rid y = next_rid s" by blast
      with y1 show ?thesis by auto
    next
      assume "next_rid ?s1 \<le> rid y"
      then show ?thesis by (simp add: next_rid_reparent)
    qed
  qed
  from 1 2 3 show ?case by blast
qed

lemma ids_skeleton: "ids s = fst ` set (skeleton s)"
  by (simp add: ids_def skeleton_def image_image)

lemma skeleton_mem: "m \<in> set (nodes s) \<Longrightarrow> (nid m, ntype m, nname m) \<in> set (skeleton s)"
  by (auto simp: skeleton_def)

lemma skeleton_ids: "(a, k) \<in> set (skeleton s) \<Longrightarrow> a \<in> ids s"
  by (auto simp: skeleton_def ids_def)

lemma push_fields:
  "rels (push s h) = rels s" "next_uuid (push s h) = next_uuid s"
  "out (push s h) b = out s b" "edges (push s h) = edges s"
  by (simp_all add: push_def out_def edges_def)

lemma skeleton_push:
  assumes "distinct (map fst (skeleton s))" and "(nid h, ntype h, nname h) \<in> set (skeleton s)"
  shows "skeleton (push s h) = skeleton s"
proof -
  have "(nid m, ntype m, nname m) = (nid h, ntype h, nname h)"
    if "m \<in> set (nodes s)" "nid m = nid h" for m
  proof -
    from that(1) have "(nid m, ntype m, nname m) \<in> set (skeleton s)" by (rule skeleton_mem)
    with that(2) have "(nid h, ntype m, nname m) \<in> set (skeleton s)" by simp
    from eq_key_imp_eq_value[OF assms(1) this assms(2)] that(2) show ?thesis by simp
  qed
  then have "\<forall>m\<in>set (nodes s). (\<lambda>m. (nid m, ntype m, nname m)) (if nid m = nid h then h else m)
      = (nid m, ntype m, nname m)" by simp
  then show ?thesis unfolding skeleton_def push_def by (simp add: o_def cong: map_cong)
qed

lemma graph_ok_cong:
  "graph_ok s \<Longrightarrow> rels s' = rels s \<Longrightarrow> ids s' = ids s \<Longrightarrow> graph_ok s'"
  by (simp add: graph_ok_def out_def)

lemma skeleton_reparent: "skeleton (reparent s e a p) = skeleton s"
  by (simp add: skeleton_def reparent_fields)

lemma merge_roots_ok:
  assumes "graph_ok s" and "nid ` set rs \<subseteq> ids s"
    and "distinct (map fst (skeleton s))" and "(nid h, ntype h, nname h) \<in> set (skeleton s)"
  shows "\<exists>s'. merge_roots s h rs = (Inr (), s') \<and> skeleton s' = skeleton s \<and>
           next_uuid s' = next_uuid s \<and> graph_ok s' \<and>
           edges s' = redirect (edges s) (nid ` set rs - {nid h}) (nid h) \<and>
           out s' (nid h) = out s (nid h)"
  using assms
proof (induction rs arbitrary: s h)
  case Nil
  then show ?case by (simp add: redirect_empty)
next
  case (Cons r rs)
  show ?case
  proof (cases "nid r = nid h")
    case True
    from Cons.prems have "nid ` set rs \<subseteq> ids s" by simp
    from Cons.IH[OF Cons.prems(1) this Cons.prems(3,4)] True show ?thesis
      by (simp add: insert_Diff_if)
  next
    case False
    define h' where "h' = h\<lparr>weight := weight h + weight r\<rparr>"
    have h': "nid h' = nid h" "ntype h' = ntype h" "nname h' = nname h" by (simp_all add: h'_def)
    let ?s0 = "push s h'"
    have sk0: "skeleton ?s0 = skeleton s"
      using Cons.prems(3,4) by (intro skeleton_push) (simp_all add: h')
    then have ids0: "ids ?s0 = ids s" by (simp add: ids_skeleton)
    have ok0: "graph_ok ?s0" using Cons.prems(1) push_fields(1) ids0 by (rule graph_ok_cong)
    from Cons.prems ids0 have r: "nid r \<in> ids ?s0" by simp
    from set_parent_reparent[OF ok0 r, of h']
    obtain e where e: "out ?s0 (nid r) = [e]"
      and sp: "set_parent ?s0 r h' = (Inr (), reparent ?s0 e r h')" by blast
    let ?s1 = "reparent ?s0 e r h'"
    from Cons.prems(4) have hid: "nid h' \<in> ids ?s0" by (simp add: ids0 h' skeleton_ids)
    have ok1: "graph_ok ?s1" using ok0 e hid by (rule graph_ok_reparent)
    have sk1: "skeleton ?s1 = skeleton s" by (simp add: skeleton_reparent sk0)
    from Cons.prems have 2: "nid ` set rs \<subseteq> ids ?s1" by (simp add: ids_reparent ids0)
    from Cons.prems(3,4) have 3: "distinct (map fst (skeleton ?s1))"
      "(nid h', ntype h', nname h') \<in> set (skeleton ?s1)" by (simp_all add: sk1 h')
    from Cons.IH[OF ok1 2 3] obtain s' where s':
      "merge_roots ?s1 h' rs = (Inr (), s')" "skeleton s' = skeleton ?s1"
      "next_uuid s' = next_uuid ?s1" "graph_ok s'"
      "edges s' = redirect (edges ?s1) (nid ` set rs - {nid h'}) (nid h')"
      "out s' (nid h') = out ?s1 (nid h')" by blast
    have "insert (nid r) (nid ` set rs - {nid h}) = nid ` set (r # rs) - {nid h}"
      using False by auto
    then have "edges s' = redirect (edges s) (nid ` set (r # rs) - {nid h}) (nid h)"
      using s'(5) by (simp add: edges_reparent[OF e] redirect_redirect h' push_fields)
    moreover have "out s' (nid h) = out s (nid h)"
      using s'(6) False by (simp add: out_reparent[OF e] h' push_fields)
    moreover have "merge_roots s h (r # rs) = (Inr (), s')"
      using False sp s'(1) by (simp add: h'_def Let_def)
    ultimately show ?thesis using s' sk1 by (simp add: reparent_fields push_fields)
  qed
qed

lemma merge_roots_same:
  "\<forall>r\<in>set rs. nid r = nid h \<Longrightarrow> merge_roots s h rs = (Inr (), s)"
proof (induction rs)
  case Nil
  show ?case by simp
next
  case (Cons r rs)
  from Cons.prems have 1: "nid r = nid h" by simp
  from Cons.prems have 2: "\<forall>r\<in>set rs. nid r = nid h" by simp
  from Cons.IH[OF 2] have 3: "merge_roots s h rs = (Inr (), s)" .
  have "merge_roots s h (r # rs) = merge_roots s h rs"
    by (subst merge_roots.simps(2)) (simp only: 1 if_False not_True_eq_False simp_thms)
  with 3 show ?case by (simp only:)
qed

section \<open>Well-formed stores and representatives\<close>

lemma forest_nodes:
  assumes "graph_ok s"
  shows "forest s \<longleftrightarrow>
    (\<forall>m\<in>set (nodes s). \<exists>r\<in>set (nodes s). is_root s r \<and> reaches s (nid m) (nid r))"
proof
  assume f: "forest s"
  show "\<forall>m\<in>set (nodes s). \<exists>r\<in>set (nodes s). is_root s r \<and> reaches s (nid m) (nid r)"
  proof
    fix m assume "m \<in> set (nodes s)"
    then have "nid m \<in> ids s" by (simp add: ids_def)
    with f obtain r where r: "rep_rel (edges s) (nid m) r" by (auto simp: forest_def)
    then have rr: "(r, r) \<in> edges s" and mr: "(nid m, r) \<in> (edges s)\<^sup>+"
      by (simp_all add: rep_rel_trancl)
    from edges_ids[OF assms rr] obtain x where x: "x \<in> set (nodes s)" "nid x = r"
      by (auto simp: ids_def)
    with rr mr have "is_root s x \<and> reaches s (nid m) (nid x)"
      by (simp add: is_root_edges reaches_trancl)
    with x show "\<exists>r\<in>set (nodes s). is_root s r \<and> reaches s (nid m) (nid r)" by blast
  qed
next
  assume n: "\<forall>m\<in>set (nodes s). \<exists>r\<in>set (nodes s). is_root s r \<and> reaches s (nid m) (nid r)"
  show "forest s"
    unfolding forest_def
  proof
    fix a assume "a \<in> ids s"
    then obtain m where m: "m \<in> set (nodes s)" "nid m = a" by (auto simp: ids_def)
    with n obtain r where "is_root s r" "reaches s a (nid r)" by blast
    then have "rep_rel (edges s) a (nid r)"
      by (simp add: rep_rel_trancl is_root_edges reaches_trancl)
    then show "\<exists>r. rep_rel (edges s) a r" ..
  qed
qed

lemma wf_store_alt:
  "wf_store s \<longleftrightarrow>
     distinct (map fst (skeleton s)) \<and> distinct (map snd (skeleton s)) \<and>
     (\<forall>a\<in>ids s. a < next_uuid s) \<and> graph_ok s \<and> forest s"
proof -
  have 1: "map fst (skeleton s) = map nid (nodes s)"
    and 2: "map snd (skeleton s) = map (\<lambda>m. (ntype m, nname m)) (nodes s)"
    by (simp_all add: skeleton_def o_def)
  have 3: "(\<forall>a\<in>ids s. a < next_uuid s) \<longleftrightarrow> (\<forall>m\<in>set (nodes s). nid m < next_uuid s)"
    by (simp add: ids_def)
  show ?thesis
    unfolding wf_store_def 1 2 3 using forest_nodes[of s] by blast
qed

lemma wf_store_graph_ok: "wf_store s \<Longrightarrow> graph_ok s"
  by (simp add: wf_store_def)

lemma wf_store_sv: "wf_store s \<Longrightarrow> single_valued (edges s)"
  by (simp add: wf_store_def single_valued_edges)

lemma wf_store_rep: "wf_store s \<Longrightarrow> a \<in> ids s \<Longrightarrow> \<exists>r. rep_rel (edges s) a r"
  by (simp add: wf_store_alt forest_def)

lemma wf_store_cong:
  assumes wf: "wf_store s" and sk: "skeleton s' = skeleton s"
    and nu: "next_uuid s' = next_uuid s" and ok: "graph_ok s'"
    and rep: "\<And>a r. rep_rel (edges s) a r \<Longrightarrow> \<exists>r'. rep_rel (edges s') a r'"
  shows "wf_store s'"
proof -
  from sk have ids: "ids s' = ids s" by (simp add: ids_skeleton)
  from wf have "forest s" by (simp add: wf_store_alt)
  with rep ids have "forest s'" unfolding forest_def by metis
  with wf sk nu ok ids show ?thesis by (simp add: wf_store_alt)
qed

lemma wf_store_empty: "wf_store empty_store"
  by (simp add: wf_store_def empty_store_def graph_ok_def ids_def)

lemma elem_find_skeleton:
  "map_option nid (List.find (\<lambda>x. ntype x = t \<and> nname x = n) xs) =
   map_option fst (List.find (\<lambda>k. snd k = (t, n)) (map (\<lambda>m. (nid m, ntype m, nname m)) xs))"
  by (induction xs) auto

lemma elem_skeleton:
  "elem s p = map_option fst (List.find (\<lambda>k. snd k = p) (skeleton s))"
  using elem_find_skeleton[of "fst p" "snd p" "nodes s"]
  by (simp add: elem_def select_first_def skeleton_def)

lemma elem_cong: "skeleton s' = skeleton s \<Longrightarrow> elem s' p = elem s p"
  by (simp add: elem_skeleton)

lemma elem_ids: "elem s p = Some a \<Longrightarrow> a \<in> ids s"
  by (auto simp: elem_def select_first_def ids_def find_Some_iff)

lemma select_first_SomeD:
  "select_first s t n = Some x \<Longrightarrow> x \<in> set (nodes s) \<and> ntype x = t \<and> nname x = n"
  by (auto simp: select_first_def find_Some_iff)

lemma rep_of_unique: "wf_store s \<Longrightarrow> rep_of s p r \<Longrightarrow> rep_of s p r' \<Longrightarrow> r = r'"
  by (auto simp: rep_of_def dest: rep_rel_unique[OF wf_store_sv])

lemma rep_of_exists: "wf_store s \<Longrightarrow> elem s p = Some a \<Longrightarrow> \<exists>r. rep_of s p r"
  by (auto simp: rep_of_def dest: elem_ids wf_store_rep)

lemma rep_of_root: "rep_of s p r \<Longrightarrow> (r, r) \<in> edges s"
  by (auto simp: rep_of_def rep_rel_def)

section \<open>find\<close>

subsection \<open>A new element\<close>

lemma find_uf_new:
  "select_first s t n = None \<Longrightarrow> find_uf s t n = (Inr (new_node s t n), with_new s t n)"
  by (simp add: find_uf_def new_node_def with_new_def Let_def)

lemma with_new_fields:
  "nodes (with_new s t n) = nodes s @ [new_node s t n]"
  "rels (with_new s t n) =
     rels s @ [\<lparr>rid = next_rid s, start_node = next_uuid s, end_node = next_uuid s\<rparr>]"
  "next_uuid (with_new s t n) = Suc (next_uuid s)"
  "next_rid (with_new s t n) = Suc (next_rid s)"
  by (simp_all add: with_new_def new_node_def create_rel_def create_node_def)

lemma with_new_simps:
  "skeleton (with_new s t n) = skeleton s @ [(next_uuid s, t, n)]"
  "ids (with_new s t n) = insert (next_uuid s) (ids s)"
  "edges (with_new s t n) = insert (next_uuid s, next_uuid s) (edges s)"
  "out (with_new s t n) b = out s b @
     (if b = next_uuid s
      then [\<lparr>rid = next_rid s, start_node = next_uuid s, end_node = next_uuid s\<rparr>] else [])"
  by (auto simp: with_new_fields new_node_def skeleton_def ids_def edges_def edges_of_def out_def)

lemma wf_store_with_new:
  assumes wf: "wf_store s" and new: "select_first s t n = None"
  shows "wf_store (with_new s t n)"
proof -
  let ?u = "next_uuid s" and ?s' = "with_new s t n"
  from wf have ok: "graph_ok s" and lt: "\<forall>a\<in>ids s. a < ?u" and f: "forest s"
    and d1: "distinct (map fst (skeleton s))" and d2: "distinct (map snd (skeleton s))"
    by (simp_all add: wf_store_alt)
  from lt have u: "?u \<notin> ids s" by auto
  then have 1: "distinct (map fst (skeleton ?s'))"
    using d1 by (simp add: with_new_simps ids_skeleton)
  from new have "(t, n) \<notin> snd ` set (skeleton s)"
    by (auto simp: select_first_def find_None_iff skeleton_def)
  then have 2: "distinct (map snd (skeleton ?s'))"
    using d2 by (simp add: with_new_simps)
  from lt have 3: "\<forall>a\<in>ids ?s'. a < next_uuid ?s'"
    by (auto simp: with_new_simps with_new_fields less_Suc_eq)
  have 4: "graph_ok ?s'"
    unfolding graph_ok_def
  proof (intro conjI ballI)
    fix e assume "e \<in> set (rels ?s')"
    then show "start_node e \<in> ids ?s'" "end_node e \<in> ids ?s'"
      using ok by (auto simp: with_new_simps with_new_fields graph_ok_def)
  next
    fix a assume "a \<in> ids ?s'"
    then show "length (out ?s' a) = 1"
      using ok u out_outside[OF ok u] by (auto simp: with_new_simps graph_ok_def)
  qed
  have 5: "forest ?s'"
    unfolding forest_def
  proof
    fix a assume "a \<in> ids ?s'"
    then consider "a = ?u" | "a \<in> ids s" by (auto simp: with_new_simps)
    then show "\<exists>r. rep_rel (edges ?s') a r"
    proof cases
      case 1
      then have "rep_rel (edges ?s') a a" by (simp add: rep_rel_def with_new_simps)
      then show ?thesis ..
    next
      case 2
      with f obtain r where "rep_rel (edges s) a r" by (auto simp: forest_def)
      then have "rep_rel (edges ?s') a r"
        by (rule rep_rel_mono[rotated]) (auto simp: with_new_simps)
      then show ?thesis ..
    qed
  qed
  from 1 2 3 4 5 show ?thesis by (simp add: wf_store_alt)
qed

lemma elem_with_new:
  "elem (with_new s t n) p =
     (case elem s p of Some a \<Rightarrow> Some a | None \<Rightarrow> if p = (t, n) then Some (next_uuid s) else None)"
  by (auto simp: elem_skeleton with_new_simps find_append_conv split: option.splits)

lemma rep_of_with_new: "rep_of s p r \<Longrightarrow> rep_of (with_new s t n) p r"
  by (auto simp: rep_of_def elem_with_new with_new_simps intro: rep_rel_mono[rotated])

lemma rep_of_new:
  assumes "select_first s t n = None"
  shows "rep_of (with_new s t n) (t, n) (next_uuid s)"
proof -
  from assms have "elem s (t, n) = None" by (simp add: elem_def)
  then show ?thesis by (simp add: rep_of_def elem_with_new rep_rel_def with_new_simps)
qed

lemma new_node_alone:
  assumes wf: "wf_store s" and p: "(a, next_uuid s) \<in> (edges (with_new s t n))\<^sup>+"
  shows "a = next_uuid s"
proof -
  from wf have ok: "graph_ok s" and lt: "\<forall>a\<in>ids s. a < next_uuid s"
    by (simp_all add: wf_store_alt)
  have last: "y = next_uuid s" if "(y, next_uuid s) \<in> edges (with_new s t n)" for y
  proof -
    from that have "y = next_uuid s \<or> (y, next_uuid s) \<in> edges s" by (auto simp: with_new_simps)
    moreover have "(y, next_uuid s) \<notin> edges s"
      using edges_ids[OF ok, of y "next_uuid s"] lt by auto
    ultimately show ?thesis by simp
  qed
  from p show ?thesis
    by (induction rule: converse_trancl_induct) (auto dest: last)
qed

subsection \<open>An existing element\<close>

lemma root_rows_Cons:
  assumes wf: "wf_store s" and x: "x \<in> set (nodes s)"
  shows "\<exists>root rest. root_rows s x = root # rest \<and> root \<in> set (nodes s) \<and>
           rep_rel (edges s) (nid x) (nid root)"
proof -
  from wf have ok: "graph_ok s" by (rule wf_store_graph_ok)
  from wf have "forest s" by (simp add: wf_store_alt)
  with ok x obtain r where r: "r \<in> set (nodes s)" "is_root s r" "reaches s (nid x) (nid r)"
    by (auto simp: forest_nodes)
  then have "r \<in> set (root_rows s x)" by (simp add: root_rows_def)
  then obtain root rest where c: "root_rows s x = root # rest"
    by (cases "root_rows s x") auto
  then have "root \<in> set (root_rows s x)" by simp
  then have "root \<in> set (nodes s)" "reaches s (nid x) (nid root)" "is_root s root"
    by (simp_all add: root_rows_def)
  then have "root \<in> set (nodes s) \<and> rep_rel (edges s) (nid x) (nid root)"
    by (simp add: rep_rel_trancl reaches_trancl is_root_edges)
  with c show ?thesis by blast
qed

lemma ancestors_ids:
  assumes "graph_ok s"
  shows "nid ` set (ancestors s r) = {a. (a, nid r) \<in> (edges s)\<^sup>+}"
proof (intro set_eqI iffI)
  fix a assume "a \<in> nid ` set (ancestors s r)"
  then show "a \<in> {a. (a, nid r) \<in> (edges s)\<^sup>+}"
    by (auto simp: ancestors_def reaches_trancl)
next
  fix a assume "a \<in> {a. (a, nid r) \<in> (edges s)\<^sup>+}"
  then have p: "(a, nid r) \<in> (edges s)\<^sup>+" by simp
  with assms have "a \<in> ids s" by (auto dest: trancl_edges_ids)
  then obtain m where "m \<in> set (nodes s)" "nid m = a" by (auto simp: ids_def)
  with p have "m \<in> set (ancestors s r)" by (simp add: ancestors_def reaches_trancl)
  with \<open>nid m = a\<close> show "a \<in> nid ` set (ancestors s r)" by blast
qed

lemma compress_ancestors:
  assumes wf: "wf_store s" and root: "root \<in> set (nodes s)" and isr: "(nid root, nid root) \<in> edges s"
  shows "\<exists>s'. compress s (ancestors s root) root = (Inr (), s') \<and> nodes s' = nodes s \<and>
           wf_store s' \<and>
           edges s' = redirect (edges s) {a. (a, nid root) \<in> (edges s)\<^sup>+} (nid root) \<and>
           (\<forall>a r. rep_rel (edges s) a r \<longrightarrow> rep_rel (edges s') a r) \<and>
           (\<forall>b. (b, nid root) \<notin> (edges s)\<^sup>+ \<longrightarrow> out s' b = out s b)"
proof -
  from wf have ok: "graph_ok s" by (rule wf_store_graph_ok)
  let ?S = "{a. (a, nid root) \<in> (edges s)\<^sup>+}"
  have S: "nid ` set (ancestors s root) = ?S" by (rule ancestors_ids[OF ok])
  have sub: "nid ` set (ancestors s root) \<subseteq> ids s" by (auto simp: ancestors_def ids_def)
  from root have rid: "nid root \<in> ids s" by (simp add: ids_def)
  from compress_ok[OF ok sub rid] obtain s' where s':
    "compress s (ancestors s root) root = (Inr (), s')" "nodes s' = nodes s"
    "next_uuid s' = next_uuid s" "graph_ok s'"
    "edges s' = redirect (edges s) ?S (nid root)"
    "\<forall>b. b \<notin> ?S \<longrightarrow> out s' b = out s b"
    unfolding S by blast
  have rep: "rep_rel (edges s') a r" if "rep_rel (edges s) a r" for a r
    unfolding s'(5) using wf_store_sv[OF wf] isr refl that by (rule rep_rel_compress)
  have "skeleton s' = skeleton s" using s'(2) by (simp add: skeleton_def)
  from wf this s'(3,4) have "wf_store s'"
    by (rule wf_store_cong) (blast intro: rep)
  with s' rep show ?thesis by auto
qed

lemma find_uf_nonroot:
  assumes wf: "wf_store s" and x: "select_first s t n = Some x" and nr: "\<not> is_root s x"
  shows "\<exists>root s'. find_uf s t n = (Inr root, s') \<and> root \<in> set (nodes s) \<and>
           rep_rel (edges s) (nid x) (nid root) \<and> nodes s' = nodes s \<and> wf_store s' \<and>
           edges s' = redirect (edges s) {a. (a, nid root) \<in> (edges s)\<^sup>+} (nid root) \<and>
           compress s (ancestors s root) root = (Inr (), s')"
proof -
  from x have xin: "x \<in> set (nodes s)" by (simp add: select_first_SomeD)
  from root_rows_Cons[OF wf xin] obtain root rest where r:
    "root_rows s x = root # rest" "root \<in> set (nodes s)" "rep_rel (edges s) (nid x) (nid root)"
    by blast
  from r(3) have isr: "(nid root, nid root) \<in> edges s" by (simp add: rep_rel_def)
  from compress_ancestors[OF wf r(2) isr] obtain s' where s':
    "compress s (ancestors s root) root = (Inr (), s')" "nodes s' = nodes s" "wf_store s'"
    "edges s' = redirect (edges s) {a. (a, nid root) \<in> (edges s)\<^sup>+} (nid root)" by blast
  from x nr r(1) s'(1) have "find_uf s t n = (Inr root, s')" by (simp add: find_uf_def)
  with r s' show ?thesis by blast
qed

lemma find_uf_existing:
  assumes wf: "wf_store s" and x: "select_first s t n = Some x"
  shows "\<exists>r s'. find_uf s t n = (Inr r, s') \<and> wf_store s' \<and> nodes s' = nodes s \<and>
           r \<in> set (nodes s) \<and> rep_rel (edges s) (nid x) (nid r) \<and>
           (\<forall>a \<rho>. rep_rel (edges s) a \<rho> \<longrightarrow> rep_rel (edges s') a \<rho>)"
proof (cases "is_root s x")
  case True
  from x have "x \<in> set (nodes s)" by (simp add: select_first_SomeD)
  moreover from True have "rep_rel (edges s) (nid x) (nid x)"
    by (simp add: rep_rel_def is_root_edges)
  moreover from True x have "find_uf s t n = (Inr x, s)" by (simp add: find_uf_def)
  ultimately show ?thesis using wf by auto
next
  case False
  from x have xin: "x \<in> set (nodes s)" by (simp add: select_first_SomeD)
  from root_rows_Cons[OF wf xin] obtain root rest where r:
    "root_rows s x = root # rest" "root \<in> set (nodes s)" "rep_rel (edges s) (nid x) (nid root)"
    by blast
  from r(3) have isr: "(nid root, nid root) \<in> edges s" by (simp add: rep_rel_def)
  from compress_ancestors[OF wf r(2) isr] obtain s' where s':
    "compress s (ancestors s root) root = (Inr (), s')" "nodes s' = nodes s" "wf_store s'"
    "\<forall>a r. rep_rel (edges s) a r \<longrightarrow> rep_rel (edges s') a r" by blast
  from x False r(1) s'(1) have "find_uf s t n = (Inr root, s')" by (simp add: find_uf_def)
  with r s' show ?thesis by auto
qed

text \<open>
  What \<open>find\<close> does on a well-formed store: it returns a node, the root of the pair's
  class, and keeps the store well-formed and every representative.
\<close>

lemma find_uf_spec:
  assumes wf: "wf_store s"
  shows "\<exists>r s'. find_uf s t n = (Inr r, s') \<and> wf_store s' \<and> r \<in> set (nodes s') \<and>
           rep_of s' (t, n) (nid r) \<and> (\<forall>p \<rho>. rep_of s p \<rho> \<longrightarrow> rep_of s' p \<rho>) \<and>
           (\<exists>new. nodes s' = nodes s @ new) \<and>
           (elem s (t, n) \<noteq> None \<longrightarrow> nodes s' = nodes s)"
proof (cases "select_first s t n")
  case None
  have "new_node s t n \<in> set (nodes (with_new s t n))" by (simp add: with_new_fields)
  moreover have "nid (new_node s t n) = next_uuid s" by (simp add: new_node_def)
  moreover have "\<exists>new. nodes (with_new s t n) = nodes s @ new" by (simp add: with_new_fields)
  moreover from None have "elem s (t, n) = None" by (simp add: elem_def)
  ultimately show ?thesis
    using find_uf_new[OF None] wf_store_with_new[OF wf None] rep_of_new[OF None]
      rep_of_with_new[of s _ _ t n]
    by auto
next
  case (Some x)
  from find_uf_existing[OF wf Some] obtain r s' where f:
    "find_uf s t n = (Inr r, s')" "wf_store s'" "nodes s' = nodes s" "r \<in> set (nodes s)"
    "rep_rel (edges s) (nid x) (nid r)"
    "\<forall>a \<rho>. rep_rel (edges s) a \<rho> \<longrightarrow> rep_rel (edges s') a \<rho>" by blast
  from f(3) have el: "elem s' p = elem s p" for p by (simp add: elem_def select_first_def)
  from Some have "elem s (t, n) = Some (nid x)" by (simp add: elem_def)
  with f(5,6) el have "rep_of s' (t, n) (nid r)" by (auto simp: rep_of_def)
  moreover from f(6) el have "\<forall>p \<rho>. rep_of s p \<rho> \<longrightarrow> rep_of s' p \<rho>" by (auto simp: rep_of_def)
  ultimately show ?thesis using f by auto
qed

lemma find_uf_wf: "wf_store s \<Longrightarrow> wf_store (snd (find_uf s t n))"
  using find_uf_spec[of s t n] by auto

lemma global_id_rep:
  assumes wf: "wf_store s" and rep: "rep_of s p \<rho>"
  shows "fst (global_id s (fst p) (snd p)) = Inr \<rho>"
proof -
  from find_uf_spec[OF wf, of "fst p" "snd p"] obtain r s' where f:
    "find_uf s (fst p) (snd p) = (Inr r, s')" "wf_store s'" "rep_of s' p (nid r)"
    "\<forall>p \<rho>. rep_of s p \<rho> \<longrightarrow> rep_of s' p \<rho>" by auto
  from f(4) rep have "rep_of s' p \<rho>" by blast
  with f(2,3) have "nid r = \<rho>" by (rule rep_of_unique)
  with f(1) show ?thesis by (simp add: global_id_def)
qed

lemma global_id_store: "snd (global_id s t n) = snd (find_uf s t n)"
  by (simp add: global_id_def split: prod.splits sum.splits)

subsection \<open>find on every pair\<close>

lemma find_all_spec:
  assumes "wf_store s"
  shows "\<exists>roots s'. find_all s objs = (Inr roots, s') \<and> wf_store s' \<and>
           list_all2 (\<lambda>p r. rep_of s' p (nid r)) objs roots \<and>
           set roots \<subseteq> set (nodes s') \<and>
           (\<forall>p \<rho>. rep_of s p \<rho> \<longrightarrow> rep_of s' p \<rho>) \<and>
           (\<exists>new. nodes s' = nodes s @ new) \<and>
           ((\<forall>p\<in>set objs. elem s p \<noteq> None) \<longrightarrow> nodes s' = nodes s)"
  using assms
proof (induction objs arbitrary: s)
  case Nil
  then show ?case by simp
next
  case (Cons x xs)
  from find_uf_spec[OF Cons.prems, of "fst x" "snd x"] obtain r s1 where f:
    "find_uf s (fst x) (snd x) = (Inr r, s1)" "wf_store s1" "r \<in> set (nodes s1)"
    "rep_of s1 x (nid r)" "\<forall>p \<rho>. rep_of s p \<rho> \<longrightarrow> rep_of s1 p \<rho>"
    "\<exists>new. nodes s1 = nodes s @ new" "elem s x \<noteq> None \<longrightarrow> nodes s1 = nodes s"
    by auto
  from Cons.IH[OF f(2)] obtain rs s' where a:
    "find_all s1 xs = (Inr rs, s')" "wf_store s'"
    "list_all2 (\<lambda>p r. rep_of s' p (nid r)) xs rs" "set rs \<subseteq> set (nodes s')"
    "\<forall>p \<rho>. rep_of s1 p \<rho> \<longrightarrow> rep_of s' p \<rho>"
    "\<exists>new. nodes s' = nodes s1 @ new"
    "(\<forall>p\<in>set xs. elem s1 p \<noteq> None) \<longrightarrow> nodes s' = nodes s1"
    by blast
  have 1: "find_all s (x # xs) = (Inr (r # rs), s')" using f(1) a(1) by simp
  have "rep_of s' x (nid r)" using f(4) a(5) by blast
  then have 2: "list_all2 (\<lambda>p r. rep_of s' p (nid r)) (x # xs) (r # rs)"
    using a(3) by simp
  have 3: "set (r # rs) \<subseteq> set (nodes s')" using f(3) a(4,6) by auto
  have 4: "\<forall>p \<rho>. rep_of s p \<rho> \<longrightarrow> rep_of s' p \<rho>" using f(5) a(5) by blast
  have 5: "\<exists>new. nodes s' = nodes s @ new" using f(6) a(6) by auto
  have 6: "nodes s' = nodes s" if all: "\<forall>p\<in>set (x # xs). elem s p \<noteq> None"
  proof -
    from all f(7) have n1: "nodes s1 = nodes s" by simp
    then have "elem s1 p = elem s p" for p by (simp add: elem_def select_first_def)
    with all a(7) have "nodes s' = nodes s1" by simp
    with n1 show ?thesis by simp
  qed
  from 1 2 3 4 5 6 a(2) show ?case by blast
qed

lemma find_all_length: "find_all s objs = (Inr roots, s') \<Longrightarrow> length roots = length objs"
  by (induction objs arbitrary: s roots) (auto split: prod.splits sum.splits)

section \<open>union\<close>

subsection \<open>The heaviest root\<close>

lemma max_from_in: "max_from b xs \<in> set (b # xs)"
  by (induction xs arbitrary: b) (auto split: if_splits)

lemma max_weight_in: "max_weight roots = Some h \<Longrightarrow> h \<in> set roots"
  using max_from_in by (auto simp: max_weight_def split: list.splits)

lemma max_weight_Some: "roots \<noteq> [] \<Longrightarrow> \<exists>h. max_weight roots = Some h"
  by (cases roots) (simp_all add: max_weight_def)

lemma max_from_first:
  "\<exists>pre post. b # xs = pre @ max_from b xs # post \<and>
     (\<forall>x\<in>set pre. weight x < weight (max_from b xs)) \<and>
     (\<forall>x\<in>set post. weight x \<le> weight (max_from b xs))"
proof (induction xs arbitrary: b)
  case Nil
  show ?case by (intro exI[of _ "[]"]) simp
next
  case (Cons x xs)
  define b' where "b' = (if weight b < weight x then x else b)"
  define m where "m = max_from b' xs"
  have m: "max_from b (x # xs) = m" by (simp add: m_def b'_def)
  from Cons.IH[of b'] obtain pre post where p:
    "b' # xs = pre @ m # post" "\<forall>y\<in>set pre. weight y < weight m"
    "\<forall>y\<in>set post. weight y \<le> weight m" unfolding m_def by blast
  have "b' \<in> set (pre @ m # post)" unfolding p(1)[symmetric] by simp
  with p(2,3) have b'le: "weight b' \<le> weight m" by (auto simp: less_imp_le)
  show ?case
    unfolding m
  proof (cases "weight b < weight x")
    case True
    then have b': "b' = x" by (simp add: b'_def)
    with p(1) have "b # x # xs = (b # pre) @ m # post" by simp
    moreover from True b'le b' have "weight b < weight m" by simp
    ultimately show "\<exists>pre post. b # x # xs = pre @ m # post \<and>
        (\<forall>x\<in>set pre. weight x < weight m) \<and> (\<forall>x\<in>set post. weight x \<le> weight m)"
      using p(2,3) by (intro exI[of _ "b # pre"] exI[of _ post]) simp
  next
    case False
    then have b': "b' = b" by (simp add: b'_def)
    with p(1) have eq: "b # xs = pre @ m # post" by simp
    show "\<exists>pre post. b # x # xs = pre @ m # post \<and>
        (\<forall>x\<in>set pre. weight x < weight m) \<and> (\<forall>x\<in>set post. weight x \<le> weight m)"
    proof (cases pre)
      case Nil
      with eq have "m = b" "post = xs" by simp_all
      with False p(3) show ?thesis
        by (intro exI[of _ "[]"] exI[of _ "x # xs"]) simp
    next
      case (Cons b0 pre')
      with eq have b0: "b0 = b" and xs: "xs = pre' @ m # post" by simp_all
      from p(2) Cons b0 have "weight b < weight m" by simp
      with False have "weight x < weight m" by simp
      with p(2,3) Cons b0 xs show ?thesis
        by (intro exI[of _ "b # x # pre'"] exI[of _ post]) simp
    qed
  qed
qed

subsection \<open>Merging the roots\<close>

lemma merge_phase:
  assumes wf: "wf_store s" and sub: "set roots \<subseteq> set (nodes s)"
    and rts: "\<forall>r\<in>set roots. (nid r, nid r) \<in> edges s" and h: "h \<in> set roots"
  shows "\<exists>s'. merge_roots s h roots = (Inr (), s') \<and> wf_store s' \<and>
           skeleton s' = skeleton s \<and>
           (\<forall>p \<rho>. rep_of s p \<rho> \<longrightarrow> rep_of s' p (if \<rho> \<in> nid ` set roots then nid h else \<rho>)) \<and>
           out s' (nid h) = out s (nid h)"
proof -
  from wf have ok: "graph_ok s" and d: "distinct (map fst (skeleton s))"
    by (simp_all add: wf_store_alt)
  from sub have ids: "nid ` set roots \<subseteq> ids s" by (auto simp: ids_def)
  from h sub have hsk: "(nid h, ntype h, nname h) \<in> set (skeleton s)"
    by (auto intro: skeleton_mem)
  let ?S = "nid ` set roots - {nid h}"
  from merge_roots_ok[OF ok ids d hsk] obtain s' where s':
    "merge_roots s h roots = (Inr (), s')" "skeleton s' = skeleton s"
    "next_uuid s' = next_uuid s" "graph_ok s'"
    "edges s' = redirect (edges s) ?S (nid h)" "out s' (nid h) = out s (nid h)"
    by blast
  have sv: "single_valued (edges s)" by (rule wf_store_sv[OF wf])
  have S: "\<forall>x\<in>?S. (x, x) \<in> edges s" using rts by auto
  have hh: "(nid h, nid h) \<in> edges s" using rts h by blast
  have rep: "rep_rel (edges s') a (if \<rho> \<in> nid ` set roots then nid h else \<rho>)"
    if "rep_rel (edges s) a \<rho>" for a \<rho>
  proof -
    have "nid h \<notin> ?S" by simp
    from rep_rel_merge[OF sv S hh this that]
    have "rep_rel (edges s') a (if \<rho> \<in> ?S then nid h else \<rho>)" by (simp only: s'(5))
    moreover have "(if \<rho> \<in> ?S then nid h else \<rho>) = (if \<rho> \<in> nid ` set roots then nid h else \<rho>)"
      by auto
    ultimately show ?thesis by simp
  qed
  from wf s'(2,3,4) have "wf_store s'"
    by (rule wf_store_cong) (blast intro: rep)
  moreover have "rep_of s' p (if \<rho> \<in> nid ` set roots then nid h else \<rho>)"
    if "rep_of s p \<rho>" for p \<rho>
    using that rep elem_cong[OF s'(2)] unfolding rep_of_def by metis
  ultimately show ?thesis using s' by blast
qed

lemma union_uf_Nil: "union_uf s [] = (Inl ValueError, s)"
  by (simp add: union_uf_def max_weight_def)

lemma union_uf_spec:
  assumes wf: "wf_store s" and ne: "objs \<noteq> []"
  shows "\<exists>roots s1 h s'. find_all s objs = (Inr roots, s1) \<and> max_weight roots = Some h \<and>
           union_uf s objs = (Inr (), s') \<and> merge_roots s1 h roots = (Inr (), s') \<and>
           wf_store s1 \<and> wf_store s' \<and> skeleton s' = skeleton s1 \<and> h \<in> set (nodes s1) \<and>
           (nid h, nid h) \<in> edges s1 \<and>
           (\<forall>p\<in>set objs. rep_of s' p (nid h)) \<and>
           out s' (nid h) = out s1 (nid h)"
proof -
  from find_all_spec[OF wf, of objs] obtain roots s1 where a:
    "find_all s objs = (Inr roots, s1)" "wf_store s1"
    "list_all2 (\<lambda>p r. rep_of s1 p (nid r)) objs roots" "set roots \<subseteq> set (nodes s1)"
    by blast
  from a(3) ne have "roots \<noteq> []" by (auto simp: list_all2_Nil2)
  then obtain h where h: "max_weight roots = Some h" by (auto dest: max_weight_Some)
  then have hin: "h \<in> set roots" by (rule max_weight_in)
  have rts: "\<forall>r\<in>set roots. (nid r, nid r) \<in> edges s1"
  proof
    fix r assume "r \<in> set roots"
    then obtain i where "i < length roots" "roots ! i = r" by (auto simp: in_set_conv_nth)
    with a(3) have "rep_of s1 (objs ! i) (nid r)" by (auto simp: list_all2_conv_all_nth)
    then show "(nid r, nid r) \<in> edges s1" by (rule rep_of_root)
  qed
  from merge_phase[OF a(2,4) rts hin] obtain s' where m:
    "merge_roots s1 h roots = (Inr (), s')" "wf_store s'" "skeleton s' = skeleton s1"
    "\<forall>p \<rho>. rep_of s1 p \<rho> \<longrightarrow> rep_of s' p (if \<rho> \<in> nid ` set roots then nid h else \<rho>)"
    "out s' (nid h) = out s1 (nid h)" by blast
  have "rep_of s' p (nid h)" if "p \<in> set objs" for p
  proof -
    from that obtain i where i: "i < length objs" "objs ! i = p" by (auto simp: in_set_conv_nth)
    with a(3) have "rep_of s1 p (nid (roots ! i))" "i < length roots"
      by (auto simp: list_all2_conv_all_nth)
    moreover from this(2) have "nid (roots ! i) \<in> nid ` set roots" by simp
    ultimately have "rep_of s' p (if nid (roots ! i) \<in> nid ` set roots then nid h else nid (roots ! i))"
      using m(4) by blast
    then show ?thesis using \<open>nid (roots ! i) \<in> nid ` set roots\<close> by (simp only: if_True)
  qed
  moreover have "union_uf s objs = (Inr (), s')" using a(1) h m(1) by (simp add: union_uf_def)
  moreover have "h \<in> set (nodes s1)" using hin a(4) by blast
  moreover have "(nid h, nid h) \<in> edges s1" using rts hin by blast
  ultimately show ?thesis using a h m by blast
qed

lemma union_uf_wf: "wf_store s \<Longrightarrow> wf_store (snd (union_uf s objs))"
proof (cases "objs = []")
  case True
  assume "wf_store s"
  with True show ?thesis by (simp add: union_uf_Nil)
next
  case False
  assume "wf_store s"
  from union_uf_spec[OF this False] show ?thesis by auto
qed

lemma union_from_stream_wf: "wf_store s \<Longrightarrow> wf_store (snd (union_from_stream s stream))"
proof (induction stream arbitrary: s)
  case Nil
  then show ?case by simp
next
  case (Cons row stream)
  from Cons.prems have wf1: "wf_store (snd (union_uf s (matches row)))" by (rule union_uf_wf)
  show ?case
  proof (cases "union_uf s (matches row)")
    case (Pair res s1)
    with wf1 have "wf_store s1" by simp
    with Pair Cons.IH[of s1] show ?thesis by (cases res) simp_all
  qed
qed

text \<open>Every store the program can be in is well-formed.\<close>

lemma reachable_wf_store: "reachable s \<Longrightarrow> wf_store s"
  by (induction rule: reachable.induct)
    (simp_all add: wf_store_empty find_uf_wf union_uf_wf union_from_stream_wf global_id_store)

subsection \<open>Relationship ids\<close>

text \<open>Every operation keeps the ids in use below the next one, also when it raises.\<close>

lemma rids_fresh_set_parent: "rids_fresh s \<Longrightarrow> rids_fresh (snd (set_parent s a p))"
proof -
  assume f: "rids_fresh s"
  show ?thesis
  proof (cases "match_one s a")
    case None
    with f show ?thesis by (simp add: set_parent_def)
  next
    case (Some e)
    have "set (remove1 e (rels s)) \<subseteq> set (rels s)" by (rule set_remove1_subset)
    with f have "rids_fresh (create_rel (separate s e) a p)"
      by (auto simp: rids_fresh_def create_rel_def separate_def less_Suc_eq)
    with Some show ?thesis by (simp add: set_parent_def)
  qed
qed

lemma rids_fresh_compress: "rids_fresh s \<Longrightarrow> rids_fresh (snd (compress s as root))"
proof (induction as arbitrary: s)
  case Nil
  then show ?case by simp
next
  case (Cons a as)
  from Cons.prems have f1: "rids_fresh (snd (set_parent s a root))"
    by (rule rids_fresh_set_parent)
  show ?case
  proof (cases "set_parent s a root")
    case (Pair res s1)
    with f1 have "rids_fresh s1" by simp
    with Pair Cons.IH[of s1] show ?thesis by (cases res) simp_all
  qed
qed

lemma rids_fresh_with_new: "rids_fresh s \<Longrightarrow> rids_fresh (with_new s t n)"
  by (auto simp: rids_fresh_def with_new_fields less_Suc_eq)

lemma rids_fresh_find_uf: "rids_fresh s \<Longrightarrow> rids_fresh (snd (find_uf s t n))"
proof -
  assume f: "rids_fresh s"
  show ?thesis
  proof (cases "select_first s t n")
    case None
    from find_uf_new[OF None] rids_fresh_with_new[OF f] show ?thesis by simp
  next
    case (Some x)
    show ?thesis
    proof (cases "is_root s x")
      case True
      with Some f show ?thesis by (simp add: find_uf_def)
    next
      case False
      show ?thesis
      proof (cases "root_rows s x")
        case Nil
        with Some False f show ?thesis by (simp add: find_uf_def)
      next
        case (Cons root rest)
        from f have c: "rids_fresh (snd (compress s (ancestors s root) root))"
          by (rule rids_fresh_compress)
        show ?thesis
        proof (cases "compress s (ancestors s root) root")
          case (Pair res s1)
          with c have "rids_fresh s1" by simp
          with Some False Cons Pair show ?thesis by (cases res) (simp_all add: find_uf_def)
        qed
      qed
    qed
  qed
qed

lemma rids_fresh_find_all: "rids_fresh s \<Longrightarrow> rids_fresh (snd (find_all s objs))"
proof (induction objs arbitrary: s)
  case Nil
  then show ?case by simp
next
  case (Cons x xs)
  from Cons.prems have f1: "rids_fresh (snd (find_uf s (fst x) (snd x)))"
    by (rule rids_fresh_find_uf)
  show ?case
  proof (cases "find_uf s (fst x) (snd x)")
    case (Pair res s1)
    with f1 have s1: "rids_fresh s1" by simp
    show ?thesis
    proof (cases res)
      case (Inl err)
      with Pair s1 show ?thesis by simp
    next
      case (Inr r)
      from Cons.IH[OF s1] have f2: "rids_fresh (snd (find_all s1 xs))" .
      show ?thesis
      proof (cases "find_all s1 xs")
        case (Pair res2 s2)
        with f2 have "rids_fresh s2" by simp
        with Pair Inr \<open>find_uf s (fst x) (snd x) = (res, s1)\<close> show ?thesis
          by (cases res2) simp_all
      qed
    qed
  qed
qed

lemma rids_fresh_push: "rids_fresh s \<Longrightarrow> rids_fresh (push s h)"
  by (simp add: rids_fresh_def push_def)

lemma rids_fresh_merge_roots: "rids_fresh s \<Longrightarrow> rids_fresh (snd (merge_roots s h rs))"
proof (induction rs arbitrary: s h)
  case Nil
  then show ?case by simp
next
  case (Cons r rs)
  show ?case
  proof (cases "nid r = nid h")
    case True
    have "merge_roots s h (r # rs) = merge_roots s h rs"
      by (subst merge_roots.simps(2)) (simp only: True if_False not_True_eq_False simp_thms)
    with Cons.IH[OF Cons.prems] show ?thesis by (simp only:)
  next
    case False
    define h' where "h' = h\<lparr>weight := weight h + weight r\<rparr>"
    from Cons.prems have "rids_fresh (push s h')" by (rule rids_fresh_push)
    then have f1: "rids_fresh (snd (set_parent (push s h') r h'))" by (rule rids_fresh_set_parent)
    have eq: "merge_roots s h (r # rs) =
      (case set_parent (push s h') r h' of
         (Inl err, s') \<Rightarrow> (Inl err, s') | (Inr _, s') \<Rightarrow> merge_roots s' h' rs)"
      by (subst merge_roots.simps(2)) (simp only: False if_True simp_thms Let_def h'_def)
    show ?thesis
    proof (cases "set_parent (push s h') r h'")
      case (Pair res s1)
      with f1 have "rids_fresh s1" by simp
      from Cons.IH[OF this, of h'] Pair \<open>rids_fresh s1\<close> show ?thesis
        unfolding eq by (cases res) simp_all
    qed
  qed
qed

lemma rids_fresh_union_uf: "rids_fresh s \<Longrightarrow> rids_fresh (snd (union_uf s objs))"
proof -
  assume f: "rids_fresh s"
  then have f1: "rids_fresh (snd (find_all s objs))" by (rule rids_fresh_find_all)
  show ?thesis
  proof (cases "find_all s objs")
    case (Pair res s1)
    with f1 have s1: "rids_fresh s1" by simp
    show ?thesis
    proof (cases res)
      case (Inl err)
      with Pair s1 show ?thesis by (simp add: union_uf_def)
    next
      case (Inr roots)
      show ?thesis
      proof (cases "max_weight roots")
        case None
        with Pair Inr s1 show ?thesis by (simp add: union_uf_def)
      next
        case (Some h)
        from rids_fresh_merge_roots[OF s1, of h roots] Pair Inr Some show ?thesis
          by (simp add: union_uf_def)
      qed
    qed
  qed
qed

lemma rids_fresh_union_from_stream:
  "rids_fresh s \<Longrightarrow> rids_fresh (snd (union_from_stream s stream))"
proof (induction stream arbitrary: s)
  case Nil
  then show ?case by simp
next
  case (Cons row stream)
  from Cons.prems have f1: "rids_fresh (snd (union_uf s (matches row)))"
    by (rule rids_fresh_union_uf)
  show ?case
  proof (cases "union_uf s (matches row)")
    case (Pair res s1)
    with f1 have "rids_fresh s1" by simp
    with Pair Cons.IH[of s1] show ?thesis by (cases res) simp_all
  qed
qed

lemma rids_fresh_empty: "rids_fresh empty_store"
  by (simp add: rids_fresh_def empty_store_def)

lemma reachable_rids_fresh: "reachable s \<Longrightarrow> rids_fresh s"
  by (induction rule: reachable.induct)
    (simp_all add: rids_fresh_empty rids_fresh_find_uf rids_fresh_union_uf
      rids_fresh_union_from_stream global_id_store)

subsection \<open>The example stores\<close>

lemma wf_store_ab: "wf_store store_ab"
  unfolding store_ab_def by code_simp

lemma wf_store_abcd: "wf_store store_abcd"
  unfolding store_abcd_def store_ab_def by code_simp

lemma wf_store_chain: "wf_store store_chain"
  unfolding store_chain_def store_abcd_def store_ab_def by code_simp

lemma reachable_store_ab: "reachable store_ab"
  unfolding store_ab_def by (intro reachable.union reachable.init)

section \<open>The claims\<close>

text \<open>
  The claims are stated for well-formed stores; by \<open>reachable_wf_store\<close> these include
  every store that the program reaches from the empty one. Where a claim speaks of one
  relationship being replaced by another, the ids in use are below the next one, which by
  \<open>reachable_rids_fresh\<close> holds in every such store as well.
\<close>

text \<open>
  C1. On a well-formed store and a non-empty sequence of pairs, \<open>union\<close> returns, and
  \<open>find\<close> on each pair of the sequence afterwards (one after the other, as \<open>find_all\<close>
  does, or through \<open>global_id\<close>) returns a node with one and the same id.
\<close>

theorem union_then_find_same_root:
  assumes "wf_store s" and "objects \<noteq> []"
  shows "\<exists>s' roots s'' h.
           union_uf s objects = (Inr (), s') \<and>
           find_all s' objects = (Inr roots, s'') \<and> length roots = length objects \<and>
           (\<forall>r\<in>set roots. nid r = h) \<and>
           (\<forall>p\<in>set objects. fst (global_id s' (fst p) (snd p)) = Inr h)"
proof -
  from union_uf_spec[OF assms] obtain roots0 s1 h s' where
    "find_all s objects = (Inr roots0, s1) \<and> max_weight roots0 = Some h \<and>
     union_uf s objects = (Inr (), s') \<and> merge_roots s1 h roots0 = (Inr (), s') \<and>
     wf_store s1 \<and> wf_store s' \<and> skeleton s' = skeleton s1 \<and> h \<in> set (nodes s1) \<and>
     (nid h, nid h) \<in> edges s1 \<and> (\<forall>p\<in>set objects. rep_of s' p (nid h)) \<and>
     out s' (nid h) = out s1 (nid h)" by (elim exE)
  then have u:
    "union_uf s objects = (Inr (), s')" "wf_store s'" "\<forall>p\<in>set objects. rep_of s' p (nid h)"
    by simp_all
  from find_all_spec[OF u(2), of objects] obtain roots s'' where f:
    "find_all s' objects = (Inr roots, s'')" "wf_store s''"
    "list_all2 (\<lambda>p r. rep_of s'' p (nid r)) objects roots"
    "\<forall>p \<rho>. rep_of s' p \<rho> \<longrightarrow> rep_of s'' p \<rho>" by blast
  have "nid r = nid h" if "r \<in> set roots" for r
  proof -
    from that obtain i where i: "i < length roots" "roots ! i = r" by (auto simp: in_set_conv_nth)
    with f(3) have 1: "rep_of s'' (objects ! i) (nid r)" and "i < length objects"
      by (auto simp: list_all2_conv_all_nth)
    then have "objects ! i \<in> set objects" by simp
    with u(3) f(4) have "rep_of s'' (objects ! i) (nid h)" by blast
    with f(2) 1 show ?thesis by (rule rep_of_unique)
  qed
  moreover have "fst (global_id s' (fst p) (snd p)) = Inr (nid h)" if "p \<in> set objects" for p
    using that u(2,3) by (auto intro: global_id_rep)
  moreover from f(3) have "length roots = length objects" by (simp add: list_all2_lengthD)
  ultimately show ?thesis using u(1) f(1) by blast
qed

theorem union_then_find_same_root_witness:
  "wf_store store_ab \<and> [(''email'', ''b''), (''phone'', ''5'')] \<noteq> [] \<and>
   (\<exists>s' roots s'' h.
      union_uf store_ab [(''email'', ''b''), (''phone'', ''5'')] = (Inr (), s') \<and>
      find_all s' [(''email'', ''b''), (''phone'', ''5'')] = (Inr roots, s'') \<and>
      length roots = length [(''email'', ''b''), (''phone'', ''5'')] \<and>
      (\<forall>r\<in>set roots. nid r = h) \<and>
      (\<forall>p\<in>set [(''email'', ''b''), (''phone'', ''5'')].
         fst (global_id s' (fst p) (snd p)) = Inr h))"
  using union_then_find_same_root[OF wf_store_ab, of "[(''email'', ''b''), (''phone'', ''5'')]"]
    wf_store_ab by simp

text \<open>
  C2. The weight of a root should be the number of elements of its class. The loop of
  \<open>union\<close> adds the weight of a root once for each time it occurs in \<open>roots\<close>: with
  the classes \<open>{a, b}\<close> and \<open>{c, d}\<close>, \<open>union([c, a, b])\<close> finds the roots \<open>c, a, a\<close>
  and leaves the root \<open>c\<close> of the four elements with weight 6; on the empty store
  \<open>union([a, b, b])\<close> leaves the root of two elements with weight 3.
\<close>

theorem weight_overcounts_repeated_root:
  "nodes (snd (union_uf store_abcd [(''email'', ''c''), (''email'', ''a''), (''email'', ''b'')])) =
     [\<lparr>nid = 0, ntype = ''email'', nname = ''a'', weight = 2\<rparr>,
      \<lparr>nid = 1, ntype = ''email'', nname = ''b'', weight = 1\<rparr>,
      \<lparr>nid = 2, ntype = ''email'', nname = ''c'', weight = 6\<rparr>,
      \<lparr>nid = 3, ntype = ''email'', nname = ''d'', weight = 1\<rparr>] \<and>
   is_root (snd (union_uf store_abcd [(''email'', ''c''), (''email'', ''a''), (''email'', ''b'')]))
     \<lparr>nid = 2, ntype = ''email'', nname = ''c'', weight = 6\<rparr> \<and>
   length (ancestors
     (snd (union_uf store_abcd [(''email'', ''c''), (''email'', ''a''), (''email'', ''b'')]))
     \<lparr>nid = 2, ntype = ''email'', nname = ''c'', weight = 6\<rparr>) = 4 \<and>
   nodes (snd (union_uf empty_store [(''email'', ''a''), (''email'', ''b''), (''email'', ''b'')])) =
     [\<lparr>nid = 0, ntype = ''email'', nname = ''a'', weight = 3\<rparr>,
      \<lparr>nid = 1, ntype = ''email'', nname = ''b'', weight = 1\<rparr>]"
  unfolding store_abcd_def store_ab_def by code_simp

text \<open>
  C3. A record with no truthy value passes the empty sequence to \<open>union\<close>, where \<open>max\<close>
  raises \<open>ValueError\<close>: \<open>union_from_stream\<close> stops at that record with the store
  unchanged and does not read the rest of the stream.
\<close>

theorem empty_record_raises:
  assumes "matches row = []"
  shows "union_from_stream s (row # stream) = (Inl ValueError, s)"
  using assms by (simp add: union_uf_Nil)

theorem empty_record_raises_witness:
  "matches [(''email'', Some ''''), (''phone'', None)] = [] \<and>
   union_from_stream store_ab
     [[(''email'', Some ''''), (''phone'', None)], [(''email'', Some ''z'')]] =
     (Inl ValueError, store_ab)"
  using empty_record_raises[of "[(''email'', Some ''''), (''phone'', None)]" store_ab
      "[[(''email'', Some ''z'')]]"]
  by simp

text \<open>
  C4, as amended. On a well-formed store whose relationship ids in use are below the next
  one, \<open>find\<close> on an existing element that is not a root returns the root. The root is
  one of the ancestors that the compression loop passes to \<open>_set_parent\<close>: the self-loop
  relationship that it had, the one \<open>match_one\<close> finds, is no longer in the store after the
  call. The root then has exactly one outgoing relationship, a self-loop that was not in
  the store before, and every cycle of parent edges is a self-loop between nodes that had
  one before the call.
\<close>

theorem compression_keeps_root:
  assumes wf: "wf_store s" and fresh: "rids_fresh s"
    and x: "select_first s t n = Some x" and nr: "\<not> is_root s x"
  shows "\<exists>root s'. find_uf s t n = (Inr root, s') \<and>
           is_root s root \<and> root \<in> set (ancestors s root) \<and>
           (\<exists>old. match_one s root = Some old \<and> out s (nid root) = [old] \<and>
              end_node old = nid root \<and> old \<notin> set (rels s')) \<and>
           (\<exists>e. out s' (nid root) = [e] \<and> end_node e = nid root \<and> e \<notin> set (rels s)) \<and>
           (\<forall>a b. reaches s' a b \<and> reaches s' b a \<longrightarrow>
              a = b \<and> (\<exists>e\<in>set (rels s). start_node e = a \<and> end_node e = a))"
proof -
  from find_uf_nonroot[OF wf x nr] obtain root s' where f:
    "find_uf s t n = (Inr root, s')" "root \<in> set (nodes s)"
    "rep_rel (edges s) (nid x) (nid root)" "wf_store s'"
    "edges s' = redirect (edges s) {a. (a, nid root) \<in> (edges s)\<^sup>+} (nid root)"
    "compress s (ancestors s root) root = (Inr (), s')" by blast
  let ?S = "{a. (a, nid root) \<in> (edges s)\<^sup>+}"
  from wf have ok: "graph_ok s" by (rule wf_store_graph_ok)
  from f(3) have rr: "(nid root, nid root) \<in> edges s" by (simp add: rep_rel_def)
  then have 1: "is_root s root" by (simp add: is_root_edges)
  from rr f(2) have 2: "root \<in> set (ancestors s root)"
    by (simp add: ancestors_def reaches_trancl)
  then have rootA: "nid root \<in> nid ` set (ancestors s root)" by (rule imageI)
  have sub: "nid ` set (ancestors s root) \<subseteq> ids s" by (auto simp: ancestors_def ids_def)
  from f(2) have rid: "nid root \<in> ids s" by (simp add: ids_def)
  from compress_rids[OF ok sub rid] f(6) have origin:
    "\<forall>y\<in>set (rels s').
       (y \<in> set (rels s) \<and> start_node y \<notin> nid ` set (ancestors s root)) \<or> next_rid s \<le> rid y"
    by simp
  have moved: "y \<notin> set (rels s)" if "y \<in> set (rels s')" "start_node y = nid root" for y
  proof
    assume old: "y \<in> set (rels s)"
    with fresh have "rid y < next_rid s" by (simp add: rids_fresh_def)
    moreover from origin that rootA have "next_rid s \<le> rid y" by auto
    ultimately show False by simp
  qed
  from out_single[OF ok rr] obtain old where old: "out s (nid root) = [old]" "end_node old = nid root"
    by blast
  then have "old \<in> set (out s (nid root))" by simp
  then have oldin: "old \<in> set (rels s)" "start_node old = nid root" by (simp_all add: out_def)
  from moved[of old] oldin have "old \<notin> set (rels s')" by blast
  moreover from old(1) have "match_one s root = Some old" by (simp add: match_one_out)
  ultimately have 3: "\<exists>old. match_one s root = Some old \<and> out s (nid root) = [old] \<and>
      end_node old = nid root \<and> old \<notin> set (rels s')" using old by blast
  from rr have "nid root \<in> ?S" by auto
  then have "(nid root, nid root) \<in> edges s'" by (simp add: f(5) redirect_def)
  with wf_store_graph_ok[OF f(4)] obtain e where e: "out s' (nid root) = [e]" "end_node e = nid root"
    by (blast dest: out_single)
  then have "e \<in> set (out s' (nid root))" by simp
  then have "e \<in> set (rels s')" "start_node e = nid root" by (simp_all add: out_def)
  then have "e \<notin> set (rels s)" by (rule moved)
  with e have 4: "\<exists>e. out s' (nid root) = [e] \<and> end_node e = nid root \<and> e \<notin> set (rels s)"
    by blast
  have 5: "a = b \<and> (\<exists>e\<in>set (rels s). start_node e = a \<and> end_node e = a)"
    if "reaches s' a b \<and> reaches s' b a" for a b
  proof -
    from that have ab: "(a, b) \<in> (edges s')\<^sup>+" and ba: "(b, a) \<in> (edges s')\<^sup>+"
      by (simp_all add: reaches_trancl)
    then have cyc: "(a, a) \<in> (edges s')\<^sup>+" by (rule trancl_trans)
    have sv: "single_valued (edges s')" by (rule wf_store_sv[OF f(4)])
    from ab have "a \<in> ids s'" using trancl_edges_ids[OF wf_store_graph_ok[OF f(4)]] by blast
    with f(4) obtain r where r: "rep_rel (edges s') a r" by (blast dest: wf_store_rep)
    from cycle_is_root[OF sv r cyc] r have aa: "(a, a) \<in> edges s'" by (simp add: rep_rel_def)
    from ab have "(a, b) \<in> (edges s')\<^sup>*" by (rule trancl_into_rtrancl)
    from root_stuck[OF sv aa this] have "a = b" by simp
    moreover from aa rr have "(a, a) \<in> edges s" by (auto simp: f(5) redirect_def)
    then have "\<exists>e\<in>set (rels s). start_node e = a \<and> end_node e = a"
      by (auto simp: edges_def edges_of_def)
    ultimately show ?thesis by simp
  qed
  from f(1) 1 2 3 4 5 show ?thesis by blast
qed

theorem compression_keeps_root_witness:
  "wf_store store_chain \<and> rids_fresh store_chain \<and>
   select_first store_chain ''email'' ''b'' = Some node_b \<and> \<not> is_root store_chain node_b \<and>
   (\<exists>root s'. find_uf store_chain ''email'' ''b'' = (Inr root, s') \<and>
      is_root store_chain root \<and> root \<in> set (ancestors store_chain root) \<and>
      (\<exists>old. match_one store_chain root = Some old \<and> out store_chain (nid root) = [old] \<and>
         end_node old = nid root \<and> old \<notin> set (rels s')) \<and>
      (\<exists>e. out s' (nid root) = [e] \<and> end_node e = nid root \<and>
         e \<notin> set (rels store_chain)) \<and>
      (\<forall>a b. reaches s' a b \<and> reaches s' b a \<longrightarrow>
         a = b \<and> (\<exists>e\<in>set (rels store_chain). start_node e = a \<and> end_node e = a)))"
proof -
  have 0: "rids_fresh store_chain"
    unfolding store_chain_def store_abcd_def store_ab_def by code_simp
  have 1: "select_first store_chain ''email'' ''b'' = Some node_b"
    unfolding store_chain_def store_abcd_def store_ab_def node_b_def by code_simp
  have 2: "\<not> is_root store_chain node_b"
    unfolding store_chain_def store_abcd_def store_ab_def node_b_def by code_simp
  from compression_keeps_root[OF wf_store_chain 0 1 2] wf_store_chain 0 1 2 show ?thesis by simp
qed

text \<open>
  The claim as it was stated fails: in \<open>store_ab\<close>, \<open>find\<close> on \<open>b\<close> deletes the
  self-loop relationship of the root \<open>a\<close> (the one \<open>match_one\<close> finds, with \<open>rid\<close> 0); the
  self-loop that the root has afterwards is a new relationship.
\<close>

theorem compression_rewrites_root_loop:
  "select_first store_ab ''email'' ''b'' = Some node_b \<and> \<not> is_root store_ab node_b \<and>
   fst (find_uf store_ab ''email'' ''b'') = Inr node_a \<and>
   node_a \<in> set (ancestors store_ab node_a) \<and>
   match_one store_ab node_a = Some \<lparr>rid = 0, start_node = 0, end_node = 0\<rparr> \<and>
   \<lparr>rid = 0, start_node = 0, end_node = 0\<rparr> \<notin> set (rels (snd (find_uf store_ab ''email'' ''b'')))"
  unfolding store_ab_def node_a_def node_b_def by code_simp

text \<open>
  C5. In every store that the program reaches from the empty one, every node has exactly
  one outgoing parent relationship.
\<close>

theorem no_orphaning:
  assumes "reachable s"
  shows "\<forall>m\<in>set (nodes s). length (out s (nid m)) = 1"
  using reachable_wf_store[OF assms] by (simp add: wf_store_def graph_ok_def ids_def)

theorem no_orphaning_witness:
  "reachable store_ab \<and> nodes store_ab = [node_a, node_b] \<and>
   length (out store_ab (nid node_a)) = 1 \<and> length (out store_ab (nid node_b)) = 1"
proof -
  have "nodes store_ab = [node_a, node_b]"
    unfolding store_ab_def node_a_def node_b_def by code_simp
  with no_orphaning[OF reachable_store_ab] reachable_store_ab show ?thesis by simp
qed



text \<open>
  C7. \<open>find\<close> on a pair with no node appends one node, with the pair's type and name,
  weight 1 and an id that no node had, and one relationship, a self-loop of that node; it
  returns that node, which is a root and the only node that reaches it.
\<close>

theorem find_creates_singleton:
  assumes wf: "wf_store s" and new: "select_first s t n = None"
  shows "\<exists>a s'. find_uf s t n = (Inr a, s') \<and>
           nodes s' = nodes s @ [a] \<and> ntype a = t \<and> nname a = n \<and> weight a = 1 \<and>
           nid a \<notin> nid ` set (nodes s) \<and>
           (\<exists>e. rels s' = rels s @ [e] \<and> start_node e = nid a \<and> end_node e = nid a) \<and>
           is_root s' a \<and> ancestors s' a = [a]"
proof -
  let ?a = "new_node s t n" and ?s' = "with_new s t n"
  have a: "nid ?a = next_uuid s" "ntype ?a = t" "nname ?a = n" "weight ?a = 1"
    by (simp_all add: new_node_def)
  from wf have lt: "\<forall>m\<in>set (nodes s). nid m < next_uuid s" by (simp add: wf_store_def)
  then have fresh: "nid ?a \<notin> nid ` set (nodes s)" by (auto simp: a)
  have root: "is_root ?s' ?a" by (simp add: is_root_edges with_new_simps a)
  have old: "\<not> reaches ?s' (nid m) (next_uuid s)" if "m \<in> set (nodes s)" for m
  proof
    assume "reaches ?s' (nid m) (next_uuid s)"
    then have "nid m = next_uuid s" by (auto simp: reaches_trancl dest: new_node_alone[OF wf])
    with lt that show False by auto
  qed
  have "(next_uuid s, next_uuid s) \<in> edges ?s'" by (simp add: with_new_simps)
  then have "reaches ?s' (next_uuid s) (next_uuid s)" by (simp add: reaches_trancl r_into_trancl')
  with old have anc: "ancestors ?s' ?a = [?a]"
    by (simp add: ancestors_def with_new_fields a)
  show ?thesis
    using find_uf_new[OF new] a fresh root anc by (simp add: with_new_fields)
qed

theorem find_creates_singleton_witness:
  "wf_store store_ab \<and> select_first store_ab ''phone'' ''5'' = None \<and>
   (\<exists>a s'. find_uf store_ab ''phone'' ''5'' = (Inr a, s') \<and>
      nodes s' = nodes store_ab @ [a] \<and> ntype a = ''phone'' \<and> nname a = ''5'' \<and> weight a = 1 \<and>
      nid a \<notin> nid ` set (nodes store_ab) \<and>
      (\<exists>e. rels s' = rels store_ab @ [e] \<and> start_node e = nid a \<and> end_node e = nid a) \<and>
      is_root s' a \<and> ancestors s' a = [a])"
proof -
  have 1: "select_first store_ab ''phone'' ''5'' = None"
    unfolding store_ab_def by code_simp
  from find_creates_singleton[OF wf_store_ab 1] wf_store_ab 1 show ?thesis by simp
qed

text \<open>
  C8. The node that \<open>union\<close> merges into is the first root of maximal weight in the order
  of the input: the roots before it are strictly lighter, the roots after it are not
  heavier.
\<close>

theorem heaviest_is_first_maximum:
  assumes "find_all s objects = (Inr roots, s1)" and "objects \<noteq> []"
  shows "\<exists>pre h post. roots = pre @ h # post \<and> max_weight roots = Some h \<and>
           (\<forall>r\<in>set pre. weight r < weight h) \<and> (\<forall>r\<in>set post. weight r \<le> weight h) \<and>
           union_uf s objects = merge_roots s1 h roots"
proof -
  from find_all_length[OF assms(1)] assms(2) obtain b xs where roots: "roots = b # xs"
    by (cases roots) auto
  from max_from_first[of b xs] obtain pre post where p:
    "b # xs = pre @ max_from b xs # post" "\<forall>x\<in>set pre. weight x < weight (max_from b xs)"
    "\<forall>x\<in>set post. weight x \<le> weight (max_from b xs)" by blast
  have "max_weight roots = Some (max_from b xs)" by (simp add: roots max_weight_def)
  moreover from this assms(1) have "union_uf s objects = merge_roots s1 (max_from b xs) roots"
    by (simp add: union_uf_def)
  ultimately show ?thesis using p roots by blast
qed

theorem heaviest_is_first_maximum_witness:
  "fst (find_all store_abcd [(''phone'', ''5''), (''email'', ''a''), (''email'', ''c'')]) =
     Inr [\<lparr>nid = 4, ntype = ''phone'', nname = ''5'', weight = 1\<rparr>,
          \<lparr>nid = 0, ntype = ''email'', nname = ''a'', weight = 2\<rparr>,
          \<lparr>nid = 2, ntype = ''email'', nname = ''c'', weight = 2\<rparr>] \<and>
   (\<exists>roots s1 pre h post.
      find_all store_abcd [(''phone'', ''5''), (''email'', ''a''), (''email'', ''c'')] =
        (Inr roots, s1) \<and>
      roots = pre @ h # post \<and> max_weight roots = Some h \<and>
      (\<forall>r\<in>set pre. weight r < weight h) \<and> (\<forall>r\<in>set post. weight r \<le> weight h) \<and>
      union_uf store_abcd [(''phone'', ''5''), (''email'', ''a''), (''email'', ''c'')] =
        merge_roots s1 h roots) \<and>
   max_weight [\<lparr>nid = 4, ntype = ''phone'', nname = ''5'', weight = 1\<rparr>,
               \<lparr>nid = 0, ntype = ''email'', nname = ''a'', weight = 2\<rparr>,
               \<lparr>nid = 2, ntype = ''email'', nname = ''c'', weight = 2\<rparr>] =
     Some \<lparr>nid = 0, ntype = ''email'', nname = ''a'', weight = 2\<rparr>"
proof -
  let ?objs = "[(''phone'', ''5''), (''email'', ''a''), (''email'', ''c'')]"
  have 1: "fst (find_all store_abcd ?objs) =
     Inr [\<lparr>nid = 4, ntype = ''phone'', nname = ''5'', weight = 1\<rparr>,
          \<lparr>nid = 0, ntype = ''email'', nname = ''a'', weight = 2\<rparr>,
          \<lparr>nid = 2, ntype = ''email'', nname = ''c'', weight = 2\<rparr>]"
    unfolding store_abcd_def store_ab_def by code_simp
  then obtain roots s1 where f: "find_all store_abcd ?objs = (Inr roots, s1)"
    by (cases "find_all store_abcd ?objs") auto
  have 2: "max_weight [\<lparr>nid = 4, ntype = ''phone'', nname = ''5'', weight = 1\<rparr>,
               \<lparr>nid = 0, ntype = ''email'', nname = ''a'', weight = 2\<rparr>,
               \<lparr>nid = 2, ntype = ''email'', nname = ''c'', weight = 2\<rparr>] =
     Some \<lparr>nid = 0, ntype = ''email'', nname = ''a'', weight = 2\<rparr>"
    by code_simp
  have "?objs \<noteq> []" by simp
  from heaviest_is_first_maximum[OF f this] f 1 2 show ?thesis by blast
qed

text \<open>
  C9. When every pair of the sequence has a node and the same global id, \<open>union\<close> leaves
  the nodes as they are, weights included, and the global id of every element; it raises
  only on the empty sequence.
\<close>

theorem union_same_class_idempotent:
  assumes wf: "wf_store s"
    and same: "\<forall>p\<in>set objects. select_first s (fst p) (snd p) \<noteq> None \<and>
                 fst (global_id s (fst p) (snd p)) = Inr c"
  shows "nodes (snd (union_uf s objects)) = nodes s \<and>
         (\<forall>m\<in>set (nodes s). fst (global_id (snd (union_uf s objects)) (ntype m) (nname m)) =
                             fst (global_id s (ntype m) (nname m))) \<and>
         (objects \<noteq> [] \<longrightarrow> fst (union_uf s objects) = Inr ())"
proof (cases "objects = []")
  case True
  then show ?thesis by (simp add: union_uf_Nil)
next
  case False
  have rep: "rep_of s p c" if "p \<in> set objects" for p
  proof -
    from that same obtain a where "elem s p = Some a" by (auto simp: elem_def)
    with wf obtain \<rho> where \<rho>: "rep_of s p \<rho>" by (blast dest: rep_of_exists)
    from global_id_rep[OF wf this] same that have "\<rho> = c" by auto
    with \<rho> show ?thesis by simp
  qed
  from same have ex: "\<forall>p\<in>set objects. elem s p \<noteq> None" by (simp add: elem_def)
  from find_all_spec[OF wf, of objects] obtain roots s1 where f:
    "find_all s objects = (Inr roots, s1)" "wf_store s1"
    "list_all2 (\<lambda>p r. rep_of s1 p (nid r)) objects roots"
    "\<forall>p \<rho>. rep_of s p \<rho> \<longrightarrow> rep_of s1 p \<rho>"
    "(\<forall>p\<in>set objects. elem s p \<noteq> None) \<longrightarrow> nodes s1 = nodes s" by blast
  from f(5) ex have n1: "nodes s1 = nodes s" by simp
  have allc: "nid r = c" if "r \<in> set roots" for r
  proof -
    from that obtain i where i: "i < length roots" "roots ! i = r" by (auto simp: in_set_conv_nth)
    with f(3) have 1: "rep_of s1 (objects ! i) (nid r)" and "i < length objects"
      by (auto simp: list_all2_conv_all_nth)
    then have "rep_of s (objects ! i) c" by (simp add: rep)
    with f(4) have "rep_of s1 (objects ! i) c" by blast
    with f(2) 1 show ?thesis by (rule rep_of_unique)
  qed
  from f(3) False have "roots \<noteq> []" by (auto simp: list_all2_Nil2)
  then obtain h where h: "max_weight roots = Some h" by (auto dest: max_weight_Some)
  then have "h \<in> set roots" by (rule max_weight_in)
  with allc have "\<forall>r\<in>set roots. nid r = nid h" by simp
  then have "merge_roots s1 h roots = (Inr (), s1)" by (rule merge_roots_same)
  with f(1) h have u: "union_uf s objects = (Inr (), s1)" by (simp add: union_uf_def)
  have "fst (global_id s1 (ntype m) (nname m)) = fst (global_id s (ntype m) (nname m))"
    if "m \<in> set (nodes s)" for m
  proof -
    let ?p = "(ntype m, nname m)"
    from that have "select_first s (ntype m) (nname m) \<noteq> None"
      by (auto simp: select_first_def find_None_iff)
    then obtain a where "elem s ?p = Some a" by (auto simp: elem_def)
    with wf obtain \<rho> where \<rho>: "rep_of s ?p \<rho>" by (blast dest: rep_of_exists)
    with f(4) have "rep_of s1 ?p \<rho>" by blast
    from global_id_rep[OF f(2) this] global_id_rep[OF wf \<rho>] show ?thesis by simp
  qed
  with u n1 show ?thesis by simp
qed

theorem union_same_class_idempotent_witness:
  "wf_store store_chain \<and>
   select_first store_chain ''email'' ''b'' \<noteq> None \<and>
   fst (global_id store_chain ''email'' ''b'') = Inr 2 \<and>
   select_first store_chain ''email'' ''a'' \<noteq> None \<and>
   fst (global_id store_chain ''email'' ''a'') = Inr 2 \<and>
   nodes (snd (union_uf store_chain [(''email'', ''b''), (''email'', ''a'')])) = nodes store_chain \<and>
   node_b \<in> set (nodes store_chain) \<and>
   fst (global_id (snd (union_uf store_chain [(''email'', ''b''), (''email'', ''a'')]))
          (ntype node_b) (nname node_b)) =
     fst (global_id store_chain (ntype node_b) (nname node_b)) \<and>
   fst (union_uf store_chain [(''email'', ''b''), (''email'', ''a'')]) = Inr ()"
proof -
  have 1: "select_first store_chain ''email'' ''b'' \<noteq> None \<and>
      fst (global_id store_chain ''email'' ''b'') = Inr 2 \<and>
      select_first store_chain ''email'' ''a'' \<noteq> None \<and>
      fst (global_id store_chain ''email'' ''a'') = Inr 2"
    unfolding store_chain_def store_abcd_def store_ab_def by code_simp
  then have 2: "\<forall>p\<in>set [(''email'', ''b''), (''email'', ''a'')].
      select_first store_chain (fst p) (snd p) \<noteq> None \<and>
      fst (global_id store_chain (fst p) (snd p)) = Inr 2" by simp
  have 3: "node_b \<in> set (nodes store_chain)"
    unfolding store_chain_def store_abcd_def store_ab_def node_b_def by code_simp
  from union_same_class_idempotent[OF wf_store_chain 2] wf_store_chain 1 3 show ?thesis by simp
qed

text \<open>
  C10, as amended. The loop of \<open>union\<close> over the roots never sets the parent of the
  heaviest root: the relationship that leaves it after the \<open>find\<close> calls is the one that
  leaves it when \<open>union\<close> returns, it is its only one and a self-loop, so the heaviest
  root is still a root.
\<close>

theorem merge_keeps_heaviest_root:
  assumes "wf_store s" and "objects \<noteq> []"
  shows "\<exists>roots s1 h s'. find_all s objects = (Inr roots, s1) \<and> max_weight roots = Some h \<and>
           union_uf s objects = (Inr (), s') \<and> merge_roots s1 h roots = (Inr (), s') \<and>
           out s' (nid h) = out s1 (nid h) \<and>
           (\<exists>e. out s' (nid h) = [e] \<and> end_node e = nid h) \<and> is_root s' h"
proof -
  from union_uf_spec[OF assms] obtain roots s1 h s' where u:
    "find_all s objects = (Inr roots, s1)" "max_weight roots = Some h"
    "union_uf s objects = (Inr (), s')" "merge_roots s1 h roots = (Inr (), s')"
    "wf_store s1" "(nid h, nid h) \<in> edges s1" "out s' (nid h) = out s1 (nid h)" by blast
  from out_single[OF wf_store_graph_ok[OF u(5)] u(6)] u(7)
  have e: "\<exists>e. out s' (nid h) = [e] \<and> end_node e = nid h" by simp
  then have "is_root s' h" by (auto simp: is_root_edges edges_out)
  with u e show ?thesis by blast
qed

theorem merge_keeps_heaviest_root_witness:
  "wf_store store_ab \<and> [(''email'', ''b''), (''phone'', ''5'')] \<noteq> [] \<and>
   (\<exists>roots s1 h s'.
      find_all store_ab [(''email'', ''b''), (''phone'', ''5'')] = (Inr roots, s1) \<and>
      max_weight roots = Some h \<and>
      union_uf store_ab [(''email'', ''b''), (''phone'', ''5'')] = (Inr (), s') \<and>
      merge_roots s1 h roots = (Inr (), s') \<and>
      out s' (nid h) = out s1 (nid h) \<and>
      (\<exists>e. out s' (nid h) = [e] \<and> end_node e = nid h) \<and> is_root s' h)"
  using merge_keeps_heaviest_root[OF wf_store_ab, of "[(''email'', ''b''), (''phone'', ''5'')]"]
    wf_store_ab by simp

text \<open>
  The claim as it was stated fails for the call as a whole: \<open>union([b])\<close> on \<open>store_ab\<close>
  selects the root \<open>a\<close>, and the \<open>find\<close> on \<open>b\<close> that \<open>union\<close> makes first has deleted the
  self-loop relationship of \<open>a\<close> and created a new one.
\<close>

theorem union_rewrites_heaviest_loop:
  "fst (find_all store_ab [(''email'', ''b'')]) = Inr [node_a] \<and>
   max_weight [node_a] = Some node_a \<and>
   out store_ab (nid node_a) = [\<lparr>rid = 0, start_node = 0, end_node = 0\<rparr>] \<and>
   fst (union_uf store_ab [(''email'', ''b'')]) = Inr () \<and>
   \<lparr>rid = 0, start_node = 0, end_node = 0\<rparr>
     \<notin> set (rels (snd (union_uf store_ab [(''email'', ''b'')])))"
  unfolding store_ab_def node_a_def by code_simp

end
